theory Spec2Isabelle
  imports Complex_Main "HOL-Library.AList" "HOL-Library.Sublist"
begin

section \<open>Values decoded from JSON\<close>

text \<open>
  \<open>reply.json()\<close> gives a tree of Python values: \<open>None\<close>, booleans, numbers, strings,
  lists and dicts with string keys. A dict is an association list in insertion order
  (its keys are unique in Python; the first entry of a key is the one looked up).
  Numbers are opaque to the library, which only ever tests a value for truth, so whole
  numbers stand for all of them. A string is a list of characters, those with a code
  point below 256.
\<close>

datatype json =
    JNull
  | JBool bool
  | JNum int
  | JStr string
  | JArr "json list"
  | JObj "(string \<times> json) list"

text \<open>A step of a path: a dict key, or the list index that the library itself appends.\<close>

datatype seg = Key string | Idx nat

record request =
  url :: string
  rq_query :: string
  rq_variables :: "(string \<times> json) list"
  rq_headers :: "(string \<times> string) list"

record reply =
  status_code :: int
  body :: "json option"

text \<open>
  The exceptions that leave \<open>graphql\<close>: the three classes of the library, and the builtin
  ones that indexing and decoding raise.
\<close>

datatype error =
    TokenError
  | HTTPError reply
  | GraphQLError json
  | KeyError
  | IndexError
  | TypeError
  | AttributeError
  | JSONDecodeError

text \<open>The builtin exceptions of indexing, which are none of the three classes of the library.\<close>

fun builtin :: "error \<Rightarrow> bool" where
  "builtin KeyError = True"
| "builtin IndexError = True"
| "builtin TypeError = True"
| "builtin AttributeError = True"
| "builtin TokenError = False"
| "builtin (HTTPError rep) = False"
| "builtin (GraphQLError errs) = False"
| "builtin JSONDecodeError = False"

text \<open>
  What the call does to the outside: requests sent, lines printed, time slept. The world
  is the list of these events, oldest first, and the server answers a request from the
  events before it.
\<close>

datatype event = Post request | Print int rat | Sleep rat

type_synonym world = "event list"

record env =
  server :: "world \<Rightarrow> request \<Rightarrow> reply"
  GITHUB_GRAPHQL_URL :: "string option"

type_synonym vars = "(string \<times> json) list"

text \<open>
  A cursor is a bare path list or a dict with \<open>path\<close> and, optionally, \<open>next\<close>
  (a \<open>next\<close> of \<open>None\<close> is an absent one). Paths given by the caller are lists of keys.
\<close>

datatype cnode =
    PathList "string list"
  | CNode "string list" "(string \<times> cnode) list option"

type_synonym cursors = "(string \<times> cnode) list"

type_synonym 'a outcome = "((error + 'a) \<times> world) option"

type_synonym rec_call = "cursors option \<Rightarrow> seg list \<Rightarrow> vars \<Rightarrow> world \<Rightarrow> json outcome"

section \<open>Python's operations on the values\<close>

fun truthy :: "json \<Rightarrow> bool" where
  "truthy JNull = False"
| "truthy (JBool b) = b"
| "truthy (JNum n) = (n \<noteq> 0)"
| "truthy (JStr s) = (s \<noteq> [])"
| "truthy (JArr xs) = (xs \<noteq> [])"
| "truthy (JObj kvs) = (kvs \<noteq> [])"

text \<open>\<open>obj[name]\<close>\<close>

fun getitem :: "json \<Rightarrow> seg \<Rightarrow> error + json" where
  "getitem (JObj kvs) (Key k) = (case map_of kvs k of None \<Rightarrow> Inl KeyError | Some v \<Rightarrow> Inr v)"
| "getitem (JObj kvs) (Idx i) = Inl KeyError"
| "getitem (JArr xs) (Idx i) = (if i < length xs then Inr (xs ! i) else Inl IndexError)"
| "getitem (JArr xs) (Key k) = Inl TypeError"
| "getitem (JStr s) (Idx i) = (if i < length s then Inr (JStr [s ! i]) else Inl IndexError)"
| "getitem (JStr s) (Key k) = Inl TypeError"
| "getitem JNull s = Inl TypeError"
| "getitem (JBool b) s = Inl TypeError"
| "getitem (JNum n) s = Inl TypeError"

text \<open>\<open>for name in path: obj = obj[name]\<close>\<close>

fun descend :: "json \<Rightarrow> seg list \<Rightarrow> error + json" where
  "descend d [] = Inr d"
| "descend d (s # ss) = (case getitem d s of Inl e \<Rightarrow> Inl e | Inr c \<Rightarrow> descend c ss)"

text \<open>
  The same loop on two trees at once (\<open>obj_nested = obj_nested[name]\<close>, then
  \<open>next_nested = next_nested[name]\<close>): the first failure is the one raised.
\<close>

fun descend2 :: "json \<Rightarrow> json \<Rightarrow> seg list \<Rightarrow> error + (json \<times> json)" where
  "descend2 a b [] = Inr (a, b)"
| "descend2 a b (s # ss) =
     (case getitem a s of
        Inl e \<Rightarrow> Inl e
      | Inr a' \<Rightarrow> (case getitem b s of Inl e \<Rightarrow> Inl e | Inr b' \<Rightarrow> descend2 a' b' ss))"

text \<open>
  The library changes the response tree in place, through a reference it reached by
  descending. The tree has no sharing, so the change is the tree with the value at that
  path replaced: \<open>put path v d\<close>.
\<close>

fun setitem :: "json \<Rightarrow> seg \<Rightarrow> json \<Rightarrow> json" where
  "setitem (JObj kvs) (Key k) v = JObj (AList.update k v kvs)"
| "setitem (JArr xs) (Idx i) v = JArr (xs[i := v])"
| "setitem d s v = d"

fun put :: "seg list \<Rightarrow> json \<Rightarrow> json \<Rightarrow> json" where
  "put [] v d = v"
| "put (s # ss) v d = (case getitem d s of Inl e \<Rightarrow> d | Inr c \<Rightarrow> setitem d s (put ss v c))"

text \<open>\<open>obj.pop(k)\<close>: the value removed and the dict without it.\<close>

fun pop :: "json \<Rightarrow> string \<Rightarrow> error + (json \<times> json)" where
  "pop (JObj kvs) k =
     (case map_of kvs k of
        None \<Rightarrow> Inl KeyError
      | Some v \<Rightarrow> Inr (v, JObj (AList.delete k kvs)))"
| "pop (JArr xs) k = Inl TypeError"
| "pop d k = Inl AttributeError"

text \<open>\<open>obj[k] = v\<close> with a string key\<close>

fun assign :: "json \<Rightarrow> string \<Rightarrow> json \<Rightarrow> error + json" where
  "assign (JObj kvs) k v = Inr (JObj (AList.update k v kvs))"
| "assign d k v = Inl TypeError"

text \<open>\<open>len(x)\<close>\<close>

fun len :: "json \<Rightarrow> error + nat" where
  "len (JArr xs) = Inr (length xs)"
| "len (JStr s) = Inr (length s)"
| "len (JObj kvs) = Inr (length kvs)"
| "len d = Inl TypeError"

text \<open>The elements that \<open>list.extend(x)\<close> takes from \<open>x\<close>.\<close>

fun iter :: "json \<Rightarrow> error + json list" where
  "iter (JArr xs) = Inr xs"
| "iter (JStr s) = Inr (map (\<lambda>c. JStr [c]) s)"
| "iter (JObj kvs) = Inr (map (\<lambda>kv. JStr (fst kv)) kvs)"
| "iter d = Inl TypeError"

fun is_substr :: "string \<Rightarrow> string \<Rightarrow> bool" where
  "is_substr n [] = (n = [])"
| "is_substr n (c # cs) = (take (length n) (c # cs) = n \<or> is_substr n cs)"

text \<open>\<open>k in x\<close>\<close>

fun contains :: "json \<Rightarrow> string \<Rightarrow> error + bool" where
  "contains (JObj kvs) k = Inr (k \<in> fst ` set kvs)"
| "contains (JArr xs) k = Inr (JStr k \<in> set xs)"
| "contains (JStr s) k = Inr (is_substr k s)"
| "contains d k = Inl TypeError"

definition is_space :: "char \<Rightarrow> bool" where
  "is_space c =
     (let n = (of_char c :: nat)
      in (9 \<le> n \<and> n \<le> 13) \<or> (28 \<le> n \<and> n \<le> 32) \<or> n = 133 \<or> n = 160)"

text \<open>
  \<open>s.strip()\<close>, with the white space that \<open>str.isspace\<close> knows among these characters:
  tab to carriage return, the four separators, the space, the next line and the no-break
  space.
\<close>

definition strip :: "string \<Rightarrow> string" where
  "strip s = rev (dropWhile is_space (rev (dropWhile is_space s)))"

section \<open>The request and its retries\<close>

definition default_url :: string where
  "default_url = ''https://api.github.com/graphql''"

definition retry_codes :: "int list" where
  "retry_codes = [403, 429, 500, 502, 503, 504]"

text \<open>\<open>2 ** k\<close> for an integer \<open>k\<close>: a float below zero, exact for a power of two.\<close>

definition pow2 :: "int \<Rightarrow> rat" where
  "pow2 k = (if k < 0 then 1 / 2 ^ nat (- k) else 2 ^ nat k)"

definition post :: "env \<Rightarrow> request \<Rightarrow> world \<Rightarrow> reply \<times> world" where
  "post e rq w = (server e w rq, w @ [Post rq])"

text \<open>
  The \<open>while\<close> loop of \<open>graphql\<close>: print, sleep, send again, count.
\<close>

function retry_loop :: "env \<Rightarrow> request \<Rightarrow> int \<Rightarrow> int \<Rightarrow> reply \<Rightarrow> world \<Rightarrow> reply \<times> world" where
  "retry_loop e rq max_retries attempted_retries rep w =
     (if status_code rep \<in> set retry_codes \<and> attempted_retries < max_retries then
        (let backoff = pow2 (attempted_retries - 1);
             w1 = w @ [Print (status_code rep) backoff, Sleep backoff];
             (rep', w2) = post e rq w1
         in retry_loop e rq max_retries (attempted_retries + 1) rep' w2)
      else (rep, w))"
  by pat_completeness auto
termination
  by (relation "measure (\<lambda>(e, rq, m, a, rep, w). nat (m - a))") auto

declare retry_loop.simps [simp del]

text \<open>
  \<open>graphql\<close> up to \<open>data = data["data"]\<close>: the token check, the request with its
  retries, the status check and the \<open>errors\<close> check.
\<close>

definition build_request :: "env \<Rightarrow> string \<Rightarrow> string \<Rightarrow> string \<Rightarrow> vars \<Rightarrow> request" where
  "build_request e query t accept kwargs =
     \<lparr>url = (case GITHUB_GRAPHQL_URL e of None \<Rightarrow> default_url | Some x \<Rightarrow> x),
      rq_query = strip query,
      rq_variables = kwargs,
      rq_headers = [(''Authorization'', ''token '' @ t), (''Accept'', accept)]\<rparr>"

text \<open>
  The request and its retries: \<open>requests.post\<close>, and the \<open>while\<close> loop unless the text
  of the query before its first \<open>(\<close> is \<open>mutation\<close>. The reply it ends with is the one
  whose status and body are looked at.
\<close>

definition exchange :: "env \<Rightarrow> string \<Rightarrow> request \<Rightarrow> int \<Rightarrow> world \<Rightarrow> reply \<times> world" where
  "exchange e query rq max_retries w =
     (let (rep0, w0) = post e rq w
      in if takeWhile (\<lambda>c. c \<noteq> CHR ''('') query \<noteq> ''mutation''
         then retry_loop e rq max_retries 0 rep0 w0
         else (rep0, w0))"

definition transport ::
  "env \<Rightarrow> string \<Rightarrow> string option \<Rightarrow> string \<Rightarrow> int \<Rightarrow> vars \<Rightarrow> world \<Rightarrow> (error + json) \<times> world" where
  "transport e query token accept max_retries kwargs w =
     (case token of
        None \<Rightarrow> (Inl TokenError, w)
      | Some t \<Rightarrow>
          if length t > 0 then
            (let rq = build_request e query t accept kwargs;
                 (rep, w1) = exchange e query rq max_retries w
             in if status_code rep \<noteq> 200 then (Inl (HTTPError rep), w1)
                else
                  (case body rep of
                     None \<Rightarrow> (Inl JSONDecodeError, w1)
                   | Some data \<Rightarrow>
                       (case contains data ''errors'' of
                          Inl x \<Rightarrow> (Inl x, w1)
                        | Inr b \<Rightarrow>
                            if b then
                              (case getitem data (Key ''errors'') of
                                 Inl x \<Rightarrow> (Inl x, w1)
                               | Inr errs \<Rightarrow> (Inl (GraphQLError errs), w1))
                            else
                              (case getitem data (Key ''data'') of
                                 Inl x \<Rightarrow> (Inl x, w1)
                               | Inr d \<Rightarrow> (Inr d, w1)))))
          else (Inl TokenError, w))"

section \<open>Depagination\<close>

fun path_of :: "cnode \<Rightarrow> string list" where
  "path_of (PathList p) = p"
| "path_of (CNode p n) = p"

fun next_of :: "cnode \<Rightarrow> cursors option" where
  "next_of (PathList p) = None"
| "next_of (CNode p n) = n"

text \<open>\<open>if isinstance(c, list): c = {"path": c}\<close>\<close>

definition normalise :: "cnode \<Rightarrow> cnode" where
  "normalise c = CNode (path_of c) (next_of c)"

text \<open>
  \<open>obj["nodes"].extend(next["nodes"])\<close>, after \<open>next\<close> has been followed down
  \<open>current_path\<close>; \<open>obj\<close> is the dict at \<open>current_path\<close> in \<open>data\<close>.
\<close>

definition extend_nodes :: "json \<Rightarrow> json \<Rightarrow> seg list \<Rightarrow> error + json" where
  "extend_nodes data nxt current_path =
     (case descend nxt current_path of
        Inl x \<Rightarrow> Inl x
      | Inr nx \<Rightarrow>
          (case descend data (current_path @ [Key ''nodes'']) of
             Inl x \<Rightarrow> Inl x
           | Inr (JArr xs) \<Rightarrow>
               (case getitem nx (Key ''nodes'') of
                  Inl x \<Rightarrow> Inl x
                | Inr b \<Rightarrow>
                    (case iter b of
                       Inl x \<Rightarrow> Inl x
                     | Inr ys \<Rightarrow> Inr (put (current_path @ [Key ''nodes'']) (JArr (xs @ ys)) data)))
           | Inr _ \<Rightarrow> Inl AttributeError))"

text \<open>
  The check whether an element needs a call of its own: every nested cursor is looked
  at, also after one has already asked for the call.
\<close>

fun call_required :: "json \<Rightarrow> cursors \<Rightarrow> bool \<Rightarrow> error + bool" where
  "call_required node_data [] acc = Inr acc"
| "call_required node_data ((next_cursor, c) # rest) acc =
     (case descend node_data (map Key (path_of c)) of
        Inl x \<Rightarrow> Inl x
      | Inr page_to_check \<Rightarrow>
          (case getitem page_to_check (Key ''pageInfo'') of
             Inl x \<Rightarrow> Inl x
           | Inr pinfo \<Rightarrow>
               (case getitem pinfo (Key ''hasNextPage'') of
                  Inl x \<Rightarrow> Inl x
                | Inr hasNextPage \<Rightarrow>
                    call_required node_data rest
                      (if truthy hasNextPage \<or> next_of c \<noteq> None then True else acc))))"

text \<open>Welding: \<open>obj_nested["nodes"] = next_nested["nodes"]\<close> for every nested cursor.\<close>

fun weld :: "json \<Rightarrow> json \<Rightarrow> seg list \<Rightarrow> cursors \<Rightarrow> error + json" where
  "weld data nxt current_path_nodes [] = Inr data"
| "weld data nxt current_path_nodes ((next_cursor, c) # rest) =
     (let join_path = current_path_nodes @ map Key (path_of c) in
      case descend2 data nxt join_path of
        Inl x \<Rightarrow> Inl x
      | Inr (obj_nested, next_nested) \<Rightarrow>
          (case getitem next_nested (Key ''nodes'') of
             Inl x \<Rightarrow> Inl x
           | Inr v \<Rightarrow>
               (case assign obj_nested ''nodes'' v of
                  Inl x \<Rightarrow> Inl x
                | Inr obj' \<Rightarrow> weld (put join_path obj' data) nxt current_path_nodes rest)))"

text \<open>
  A recursive call passes the variables as \<open>**kwargs\<close>. Python refuses the call, before
  anything of it runs, when a variable bears the name of a parameter of \<open>graphql\<close>.
\<close>

definition parameters :: "string list" where
  "parameters = [''query'', ''token'', ''accept'', ''max_retries'', ''cursors'', ''prev_path'']"

definition recurse :: "rec_call \<Rightarrow> rec_call" where
  "recurse rc cs prev_path kwargs w =
     (if \<exists>k \<in> set parameters. k \<in> fst ` set kwargs then Some (Inl TypeError, w)
      else rc cs prev_path kwargs w)"

text \<open>
  \<open>for i in range(len(obj["nodes"]))\<close>. The recursive call of \<open>graphql\<close> is the
  parameter \<open>rc\<close>; an empty \<open>prev_path\<close> stands for \<open>None\<close> too (both are false in
  \<open>if prev_path\<close>).
\<close>

fun nodes_loop ::
  "rec_call \<Rightarrow> cursors \<Rightarrow> seg list \<Rightarrow> seg list \<Rightarrow> vars \<Rightarrow> nat list \<Rightarrow> json \<Rightarrow> world
     \<Rightarrow> json outcome" where
  "nodes_loop rc nxt prev_path current_path kwargs [] data w = Some (Inr data, w)"
| "nodes_loop rc nxt prev_path current_path kwargs (i # is) data w =
     (let current_path_nodes =
            (if prev_path = [] then current_path else prev_path) @ [Key ''nodes'', Idx i] in
      case descend data current_path_nodes of
        Inl x \<Rightarrow> Some (Inl x, w)
      | Inr node_data \<Rightarrow>
          (case call_required node_data nxt False of
             Inl x \<Rightarrow> Some (Inl x, w)
           | Inr b \<Rightarrow>
               if \<not> b then nodes_loop rc nxt prev_path current_path kwargs is data w
               else
                 (case recurse rc (Some (map (\<lambda>kc. (fst kc, normalise (snd kc))) nxt))
                          current_path_nodes kwargs w of
                    None \<Rightarrow> None
                  | Some (Inl x, w') \<Rightarrow> Some (Inl x, w')
                  | Some (Inr nx, w') \<Rightarrow>
                      (case weld data nx current_path_nodes nxt of
                         Inl x \<Rightarrow> Some (Inl x, w')
                       | Inr data' \<Rightarrow>
                           nodes_loop rc nxt prev_path current_path kwargs is data' w'))))"

text \<open>The body of \<open>for cursor in cursors.keys()\<close>.\<close>

definition visit ::
  "rec_call \<Rightarrow> seg list \<Rightarrow> string \<Rightarrow> cnode \<Rightarrow> vars \<Rightarrow> json \<Rightarrow> world
     \<Rightarrow> (vars \<times> json) outcome" where
  "visit rc prev_path cursor c kwargs data w =
     (let node = normalise c;
          current_path = prev_path @ map Key (path_of node) in
      case descend data current_path of
        Inl x \<Rightarrow> Some (Inl x, w)
      | Inr obj \<Rightarrow>
      (case pop obj ''pageInfo'' of
        Inl x \<Rightarrow> Some (Inl x, w)
      | Inr (pinfo, obj') \<Rightarrow>
      (case getitem pinfo (Key ''hasNextPage'') of
        Inl x \<Rightarrow> Some (Inl x, w)
      | Inr hasNextPage \<Rightarrow>
          if truthy hasNextPage then
            (case getitem pinfo (Key ''endCursor'') of
               Inl x \<Rightarrow> Some (Inl x, w)
             | Inr endCursor \<Rightarrow>
                 (let kwargs' = AList.update cursor endCursor kwargs in
                  case recurse rc (Some [(cursor, node)]) prev_path kwargs' w of
                    None \<Rightarrow> None
                  | Some (Inl x, w') \<Rightarrow> Some (Inl x, w')
                  | Some (Inr nx, w') \<Rightarrow>
                      (case extend_nodes (put current_path obj' data) nx current_path of
                         Inl x \<Rightarrow> Some (Inl x, w')
                       | Inr data' \<Rightarrow> Some (Inr (kwargs', data'), w'))))
          else
            (case next_of node of
               None \<Rightarrow> Some (Inr (kwargs, put current_path obj' data), w)
             | Some nxt \<Rightarrow>
                 (case getitem obj' (Key ''nodes'') of
                    Inl x \<Rightarrow> Some (Inl x, w)
                  | Inr ns \<Rightarrow>
                      (case len ns of
                         Inl x \<Rightarrow> Some (Inl x, w)
                       | Inr n \<Rightarrow>
                           (case nodes_loop rc nxt prev_path current_path kwargs [0..<n]
                                   (put current_path obj' data) w of
                              None \<Rightarrow> None
                            | Some (Inl x, w') \<Rightarrow> Some (Inl x, w')
                            | Some (Inr data', w') \<Rightarrow> Some (Inr (kwargs, data'), w'))))))))"

fun cursors_loop ::
  "rec_call \<Rightarrow> seg list \<Rightarrow> cursors \<Rightarrow> vars \<Rightarrow> json \<Rightarrow> world \<Rightarrow> (vars \<times> json) outcome" where
  "cursors_loop rc prev_path [] kwargs data w = Some (Inr (kwargs, data), w)"
| "cursors_loop rc prev_path ((cursor, c) # rest) kwargs data w =
     (case visit rc prev_path cursor c kwargs data w of
        None \<Rightarrow> None
      | Some (Inl x, w') \<Rightarrow> Some (Inl x, w')
      | Some (Inr (kwargs', data'), w') \<Rightarrow> cursors_loop rc prev_path rest kwargs' data' w')"

text \<open>
  \<open>graphql\<close>. The first argument bounds the depth of the recursion: a server that
  always announces one more page keeps the Python going, and that is \<open>None\<close> here.
  The loop over the cursors leaves \<open>kwargs\<close> and \<open>data\<close>; \<open>data\<close> is returned.
\<close>

primrec graphql ::
  "nat \<Rightarrow> env \<Rightarrow> string \<Rightarrow> string option \<Rightarrow> string \<Rightarrow> int \<Rightarrow> cursors option \<Rightarrow> seg list \<Rightarrow> vars
     \<Rightarrow> world \<Rightarrow> json outcome" where
  "graphql 0 e query token accept max_retries cs prev_path kwargs w = None"
| "graphql (Suc n) e query token accept max_retries cs prev_path kwargs w =
     (case transport e query token accept max_retries kwargs w of
        (Inl x, w') \<Rightarrow> Some (Inl x, w')
      | (Inr data, w') \<Rightarrow>
          (case cs of
             None \<Rightarrow> Some (Inr data, w')
           | Some c \<Rightarrow>
               (case cursors_loop (graphql n e query token accept max_retries) prev_path c
                       kwargs data w' of
                  None \<Rightarrow> None
                | Some (Inl x, w'') \<Rightarrow> Some (Inl x, w'')
                | Some (Inr (kwargs', data'), w'') \<Rightarrow> Some (Inr data', w''))))"

text \<open>The requests sent and the times slept, in order, as the world records them.\<close>

fun requests :: "world \<Rightarrow> request list" where
  "requests [] = []"
| "requests (Post rq # w) = rq # requests w"
| "requests (Print s b # w) = requests w"
| "requests (Sleep b # w) = requests w"

fun sleeps :: "world \<Rightarrow> rat list" where
  "sleeps [] = []"
| "sleeps (Sleep b # w) = b # sleeps w"
| "sleeps (Post rq # w) = sleeps w"
| "sleeps (Print s b # w) = sleeps w"

text \<open>
  What a run of retries adds to the world: for the retry numbered \<open>k\<close>, after a reply
  of status \<open>s\<close>, the line printed, the sleep, and then the request.
\<close>

fun retry_trace :: "request \<Rightarrow> nat \<Rightarrow> int list \<Rightarrow> world" where
  "retry_trace rq k [] = []"
| "retry_trace rq k (s # sts) =
     [Print s (pow2 (int k - 1)), Sleep (pow2 (int k - 1)), Post rq] @ retry_trace rq (Suc k) sts"

section \<open>The changes made to the response tree\<close>

text \<open>
  Two paths are comparable when one is a prefix of the other: one leads through the
  place of the other.
\<close>

definition comparable :: "seg list \<Rightarrow> seg list \<Rightarrow> bool" where
  "comparable p q = (prefix p q \<or> prefix q p)"

text \<open>
  The three ways \<open>graphql\<close> changes the tree: \<open>obj.pop("pageInfo")\<close> at a path,
  \<open>obj["nodes"].extend(ys)\<close> at a path, and \<open>obj["nodes"] = v\<close> at a path; and the place
  in the tree that each one writes.
\<close>

datatype patch = Strip "seg list" | Extend "seg list" "json list" | Replace "seg list" json

fun apply_patch :: "patch \<Rightarrow> json \<Rightarrow> json" where
  "apply_patch (Strip p) d =
     (case descend d p of
        Inl x \<Rightarrow> d
      | Inr obj \<Rightarrow> (case pop obj ''pageInfo'' of Inl x \<Rightarrow> d | Inr (pinfo, obj') \<Rightarrow> put p obj' d))"
| "apply_patch (Extend p ys) d =
     (case descend d (p @ [Key ''nodes'']) of
        Inr (JArr xs) \<Rightarrow> put (p @ [Key ''nodes'']) (JArr (xs @ ys)) d
      | _ \<Rightarrow> d)"
| "apply_patch (Replace p v) d =
     (case descend d p of
        Inl x \<Rightarrow> d
      | Inr obj \<Rightarrow> (case assign obj ''nodes'' v of Inl x \<Rightarrow> d | Inr obj' \<Rightarrow> put p obj' d))"

declare apply_patch.simps [simp del]

fun loc :: "patch \<Rightarrow> seg list" where
  "loc (Strip p) = p @ [Key ''pageInfo'']"
| "loc (Extend p ys) = p @ [Key ''nodes'']"
| "loc (Replace p v) = p @ [Key ''nodes'']"

text \<open>
  The changes a cursor tree allows at the top level: the first two at the path of a
  cursor, the third at the path of a nested cursor inside an element of the \<open>nodes\<close> of
  its parent. A path is outside the tree when it is comparable with no \<open>pageInfo\<close> and
  no \<open>nodes\<close> of a top-level cursor.
\<close>

fun is_elem_path :: "seg list \<Rightarrow> seg list set \<Rightarrow> bool" where
  "is_elem_path (Key k # Idx i # rest) S = (k = ''nodes'' \<and> rest \<in> S)"
| "is_elem_path p S = False"

definition nested_at :: "cnode \<Rightarrow> seg list \<Rightarrow> bool" where
  "nested_at n p =
     (case next_of n of
        None \<Rightarrow> False
      | Some nxt \<Rightarrow>
          take (length (path_of n)) p = map Key (path_of n) \<and>
          is_elem_path (drop (length (path_of n)) p)
            ((\<lambda>kc. map Key (path_of (snd kc))) ` set nxt))"

fun allowed :: "cursors \<Rightarrow> patch \<Rightarrow> bool" where
  "allowed cs (Strip p) = (p \<in> (\<lambda>kc. map Key (path_of (snd kc))) ` set cs)"
| "allowed cs (Extend p ys) = (p \<in> (\<lambda>kc. map Key (path_of (snd kc))) ` set cs)"
| "allowed cs (Replace p v) = (\<exists>kc \<in> set cs. nested_at (snd kc) p)"

definition outside :: "cursors \<Rightarrow> seg list \<Rightarrow> bool" where
  "outside cs q =
     (\<forall>kc \<in> set cs. \<not> comparable q (map Key (path_of (snd kc)) @ [Key ''pageInfo''])
                   \<and> \<not> comparable q (map Key (path_of (snd kc)) @ [Key ''nodes'']))"

section \<open>A server without further pages\<close>

text \<open>
  No \<open>hasNextPage\<close> anywhere in a tree is true; and a cursor tree none of whose nested
  cursors has nested cursors of its own.
\<close>

fun no_next_page :: "json \<Rightarrow> bool" where
  "no_next_page (JObj kvs) =
     (\<forall>kv \<in> set kvs. (fst kv = ''hasNextPage'' \<longrightarrow> \<not> truthy (snd kv)) \<and> no_next_page (snd kv))"
| "no_next_page (JArr xs) = (\<forall>x \<in> set xs. no_next_page x)"
| "no_next_page d = True"

definition flat :: "cursors \<Rightarrow> bool" where
  "flat cs =
     (\<forall>kc \<in> set cs. case next_of (snd kc) of
                       None \<Rightarrow> True
                     | Some nxt \<Rightarrow> \<forall>kc' \<in> set nxt. next_of (snd kc') = None)"

section \<open>The pages of a connection\<close>

text \<open>
  The claim speaks of the per-page \<open>nodes\<close> lists that the server returns for a
  connection. \<open>rest_pages\<close> follows these words, not the source: given the \<open>pageInfo\<close> of
  the page at hand, it asks for the next page with the cursor variable set to
  \<open>endCursor\<close> for as long as \<open>hasNextPage\<close> is true, and collects the \<open>nodes\<close> list of the
  connection at path \<open>p\<close> in each reply. It changes no tree. Its first argument bounds the
  number of pages.
\<close>

fun rest_pages ::
  "nat \<Rightarrow> env \<Rightarrow> string \<Rightarrow> string option \<Rightarrow> string \<Rightarrow> int \<Rightarrow> string \<Rightarrow> seg list \<Rightarrow> json \<Rightarrow> vars
     \<Rightarrow> world \<Rightarrow> (json list list \<times> world) option" where
  "rest_pages n e query token accept max_retries cursor p pinfo kwargs w =
     (case getitem pinfo (Key ''hasNextPage'') of
        Inl x \<Rightarrow> None
      | Inr h \<Rightarrow>
          if \<not> truthy h then Some ([], w)
          else
            (case n of
               0 \<Rightarrow> None
             | Suc m \<Rightarrow>
                 (case getitem pinfo (Key ''endCursor'') of
                    Inl x \<Rightarrow> None
                  | Inr endCursor \<Rightarrow>
                      (case transport e query token accept max_retries
                              (AList.update cursor endCursor kwargs) w of
                         (Inl x, w1) \<Rightarrow> None
                       | (Inr data, w1) \<Rightarrow>
                           (case descend data (p @ [Key ''nodes'']) of
                              Inr (JArr xs) \<Rightarrow>
                                (case descend data (p @ [Key ''pageInfo'']) of
                                   Inl x \<Rightarrow> None
                                 | Inr pinfo' \<Rightarrow>
                                     (case rest_pages m e query token accept max_retries cursor p
                                             pinfo' (AList.update cursor endCursor kwargs) w1 of
                                        None \<Rightarrow> None
                                      | Some (xss, w2) \<Rightarrow> Some (xs # xss, w2)))
                            | _ \<Rightarrow> None)))))"

declare rest_pages.simps [simp del]

text \<open>
  The nested cursors of a cursor, none when it has no \<open>next\<close>; and what the welding may
  do to an element of \<open>nodes\<close>: any number of assignments \<open>obj_nested["nodes"] = v\<close> at
  the paths of these nested cursors inside the element, and nothing else.
\<close>

definition nested_of :: "cnode \<Rightarrow> cursors" where
  "nested_of c = (case next_of c of None \<Rightarrow> [] | Some nxt \<Rightarrow> nxt)"

inductive welded :: "cursors \<Rightarrow> json \<Rightarrow> json \<Rightarrow> bool" for nxt where
  same: "welded nxt x x"
| assigned:
    "welded nxt x y \<Longrightarrow> kc \<in> set nxt \<Longrightarrow>
     welded nxt x (apply_patch (Replace (map Key (path_of (snd kc))) v) y)"

section \<open>Servers for the examples\<close>

text \<open>A server that answers the requests from a fixed list of replies, in order.\<close>

definition scripted :: "reply list \<Rightarrow> world \<Rightarrow> request \<Rightarrow> reply" where
  "scripted rs w rq =
     (if length (requests w) < length rs then rs ! length (requests w)
      else \<lparr>status_code = 404, body = None\<rparr>)"

definition ok :: "json \<Rightarrow> reply" where
  "ok d = \<lparr>status_code = 200, body = Some (JObj [(''data'', d)])\<rparr>"

definition failing :: "int \<Rightarrow> reply" where
  "failing s = \<lparr>status_code = s, body = None\<rparr>"

definition env_of :: "reply list \<Rightarrow> env" where
  "env_of rs = \<lparr>server = scripted rs, GITHUB_GRAPHQL_URL = None\<rparr>"

definition bad_reply :: reply where
  "bad_reply =
     \<lparr>status_code = 200,
      body = Some (JObj [(''data'', JNull),
                         (''errors'', JArr [JObj [(''message'', JStr ''bad'')]])])\<rparr>"

text \<open>Documents and requests of the examples.\<close>

definition conn :: "string \<Rightarrow> bool \<Rightarrow> json list \<Rightarrow> json" where
  "conn ec hnp ns =
     JObj [(''pageInfo'', JObj [(''endCursor'', JStr ec), (''hasNextPage'', JBool hnp)]),
           (''nodes'', JArr ns)]"

definition item :: "int \<Rightarrow> json" where
  "item k = JObj [(''n'', JNum k)]"

definition issues_doc :: "json \<Rightarrow> json" where
  "issues_doc c = JObj [(''repository'', JObj [(''name'', JStr ''r''), (''issues'', c)])]"

definition sent :: "vars \<Rightarrow> event" where
  "sent kwargs = Post (build_request (env_of []) ''query { a }'' ''t'' [] kwargs)"

definition pr :: "json \<Rightarrow> json" where
  "pr c = JObj [(''timelineItems'', c)]"

definition prs_doc :: "json \<Rightarrow> json" where
  "prs_doc c = JObj [(''repository'', JObj [(''pullRequests'', c)])]"

definition nested_cursors :: cursors where
  "nested_cursors =
     [(''cursor2'', CNode [''repository'', ''pullRequests'']
         (Some [(''cursor3'', CNode [''timelineItems''] None)]))]"

definition deep_cursors :: cursors where
  "deep_cursors =
     [(''cursor2'', CNode [''repository'', ''pullRequests'']
         (Some [(''cursor3'', CNode [''timelineItems'']
            (Some [(''cursor4'', PathList [''reviews''])]))]))]"

definition repo_doc :: "json \<Rightarrow> json \<Rightarrow> json" where
  "repo_doc i p = JObj [(''repository'', JObj [(''issues'', i), (''pullRequests'', p)])]"

definition two_cursors :: cursors where
  "two_cursors =
     [(''cursor1'', PathList [''repository'', ''issues'']),
      (''cursor2'', CNode [''repository'', ''pullRequests''] None)]"

section \<open>Credentials\<close>

text \<open>
  C7. A call whose token is absent or the empty string fails with \<open>TokenError\<close>, and the
  world is as before: nothing was sent.
\<close>

theorem graphql_missing_token:
  "graphql (Suc n) e query None accept max_retries cs prev_path kwargs w = Some (Inl TokenError, w)
   \<and> graphql (Suc n) e query (Some []) accept max_retries cs prev_path kwargs w
       = Some (Inl TokenError, w)"
  by (simp add: transport_def)

section \<open>Retries\<close>

lemma requests_append: "requests (w @ v) = requests w @ requests v"
  by (induction w rule: requests.induct) auto

lemma sleeps_append: "sleeps (w @ v) = sleeps w @ sleeps v"
  by (induction w rule: sleeps.induct) auto

lemma retry_loop_stop:
  "status_code rep \<notin> set retry_codes \<or> \<not> a < m \<Longrightarrow> retry_loop e rq m a rep w = (rep, w)"
  by (subst retry_loop.simps) auto

lemma retry_loop_step:
  "status_code rep \<in> set retry_codes \<Longrightarrow> a < m \<Longrightarrow>
   retry_loop e rq m a rep w =
     retry_loop e rq m (a + 1)
       (server e (w @ [Print (status_code rep) (pow2 (a - 1)), Sleep (pow2 (a - 1))]) rq)
       (w @ [Print (status_code rep) (pow2 (a - 1)), Sleep (pow2 (a - 1)), Post rq])"
  by (subst retry_loop.simps) (simp add: post_def Let_def)

lemma ok_not_retried: "200 \<notin> set retry_codes"
  by (simp add: retry_codes_def)

lemma requests_retry_trace: "requests (retry_trace rq k sts) = replicate (length sts) rq"
  by (induction sts arbitrary: k) auto

lemma sleeps_retry_trace:
  "sleeps (retry_trace rq k sts) = map (\<lambda>i. pow2 (int i - 1)) [k..<k + length sts]"
proof (induction sts arbitrary: k)
  case Nil
  then show ?case by simp
next
  case (Cons s sts)
  have "[k..<k + length (s # sts)] = k # [Suc k..<Suc k + length sts]"
    by (simp add: upt_rec)
  with Cons show ?case by simp
qed

lemma retry_loop_trace:
  "retry_loop e rq m a rep w = (rep', w') \<Longrightarrow> 0 \<le> a \<Longrightarrow>
   \<exists>sts. w' = w @ retry_trace rq (nat a) sts
        \<and> set sts \<subseteq> set retry_codes
        \<and> int (length sts) \<le> max 0 (m - a)
        \<and> (status_code rep' \<in> set retry_codes \<longrightarrow> int (length sts) = max 0 (m - a))
        \<and> (rep' = rep \<or> (\<exists>v. rep' = server e v rq))"
proof (induction e rq m a rep w rule: retry_loop.induct)
  case (1 e rq m a rep w)
  show ?case
  proof (cases "status_code rep \<in> set retry_codes \<and> a < m")
    case False
    then have "rep' = rep" "w' = w"
      using "1.prems"(1) by (auto simp: retry_loop_stop)
    with False show ?thesis
      by (intro exI [of _ "[]"]) auto
  next
    case True
    define b where "b = pow2 (a - 1)"
    define w1 where "w1 = w @ [Print (status_code rep) b, Sleep b]"
    define w2 where "w2 = w1 @ [Post rq]"
    have run: "retry_loop e rq m (a + 1) (server e w1 rq) w2 = (rep', w')"
      using "1.prems"(1) True
      by (subst (asm) retry_loop.simps) (simp add: post_def Let_def b_def w1_def w2_def)
    have "\<exists>sts. w' = w2 @ retry_trace rq (nat (a + 1)) sts
        \<and> set sts \<subseteq> set retry_codes
        \<and> int (length sts) \<le> max 0 (m - (a + 1))
        \<and> (status_code rep' \<in> set retry_codes \<longrightarrow> int (length sts) = max 0 (m - (a + 1)))
        \<and> (rep' = server e w1 rq \<or> (\<exists>v. rep' = server e v rq))"
      using "1.IH" [OF True b_def w1_def _ _ run] "1.prems"(2)
      by (simp add: post_def w2_def)
    then obtain sts where sts: "w' = w2 @ retry_trace rq (nat (a + 1)) sts"
      "set sts \<subseteq> set retry_codes" "int (length sts) \<le> max 0 (m - (a + 1))"
      "status_code rep' \<in> set retry_codes \<longrightarrow> int (length sts) = max 0 (m - (a + 1))"
      "\<exists>v. rep' = server e v rq"
      by blast
    have nat_a: "nat (a + 1) = Suc (nat a)" "int (nat a) = a"
      using "1.prems"(2) by auto
    show ?thesis
      using sts True nat_a
      by (intro exI [of _ "status_code rep # sts"])
         (auto simp: w2_def w1_def b_def)
  qed
qed

lemma transport_world:
  assumes "t \<noteq> []"
    and "transport e query (Some t) accept max_retries kwargs w = (res, w')"
  shows "\<exists>rep. (w', rep) =
       (if takeWhile (\<lambda>c. c \<noteq> CHR ''('') query \<noteq> ''mutation''
        then (snd (retry_loop e (build_request e query t accept kwargs) max_retries 0
                 (server e w (build_request e query t accept kwargs))
                 (w @ [Post (build_request e query t accept kwargs)])),
              fst (retry_loop e (build_request e query t accept kwargs) max_retries 0
                 (server e w (build_request e query t accept kwargs))
                 (w @ [Post (build_request e query t accept kwargs)])))
        else (w @ [Post (build_request e query t accept kwargs)],
              server e w (build_request e query t accept kwargs)))"
  using assms
  by (auto simp: transport_def exchange_def post_def Let_def split: prod.splits if_splits option.splits sum.splits)

text \<open>
  C6. One round of the transport, with a token and \<open>max_retries\<close> not negative: the
  world grows by the first request and then, for each retry \<open>k = 0, 1, ...\<close>, by a
  sleep of \<open>2 ^ (k - 1)\<close> seconds followed by the request; every retried status is a
  retryable one; at most \<open>max_retries + 1\<close> requests are sent, exactly one when
  \<open>max_retries\<close> is 0; and when the query is not taken for a mutation and the server
  only ever answers retryable statuses, all \<open>max_retries\<close> retries are made.
\<close>

theorem retry_backoff:
  assumes "t \<noteq> []" and "0 \<le> max_retries"
    and "transport e query (Some t) accept max_retries kwargs w = (res, w')"
  shows "\<exists>sts. w' = w @ Post (build_request e query t accept kwargs)
                      # retry_trace (build_request e query t accept kwargs) 0 sts
          \<and> set sts \<subseteq> set retry_codes
          \<and> sleeps w' = sleeps w @ map (\<lambda>k. pow2 (int k - 1)) [0..<length sts]
          \<and> length (requests w') = length (requests w) + 1 + length sts
          \<and> length (requests w') \<le> length (requests w) + nat max_retries + 1
          \<and> (max_retries = 0 \<longrightarrow> length (requests w') = length (requests w) + 1)
          \<and> (takeWhile (\<lambda>c. c \<noteq> CHR ''('') query \<noteq> ''mutation'' \<longrightarrow>
               (\<forall>v. status_code (server e v (build_request e query t accept kwargs)) \<in> set retry_codes) \<longrightarrow>
               length sts = nat max_retries)"
proof -
  define rq where "rq = build_request e query t accept kwargs"
  show ?thesis
  proof (cases "takeWhile (\<lambda>c. c \<noteq> CHR ''('') query \<noteq> ''mutation''")
    case False
    then have "w' = w @ [Post rq]"
      using transport_world [OF assms(1,3)] by (simp add: rq_def)
    then show ?thesis
      using False
      by (intro exI [of _ "[]"]) (simp add: rq_def requests_append sleeps_append)
  next
    case True
    obtain rep' where run: "retry_loop e rq max_retries 0 (server e w rq) (w @ [Post rq]) = (rep', w')"
      using transport_world [OF assms(1,3)] True
      by (cases "retry_loop e rq max_retries 0 (server e w rq) (w @ [Post rq])") (simp add: rq_def)
    from retry_loop_trace [OF run] obtain sts where
      sts: "w' = (w @ [Post rq]) @ retry_trace rq 0 sts" "set sts \<subseteq> set retry_codes"
        "int (length sts) \<le> max 0 max_retries"
        "status_code rep' \<in> set retry_codes \<longrightarrow> int (length sts) = max 0 max_retries"
        "\<exists>v. rep' = server e v rq"
      by auto
    have bound: "length sts \<le> nat max_retries"
      using sts(3) assms(2) by linarith
    have exact: "\<forall>v. status_code (server e v rq) \<in> set retry_codes \<Longrightarrow> length sts = nat max_retries"
      using sts(4,5) assms(2) by auto
    have sl: "sleeps w' = sleeps w @ map (\<lambda>k. pow2 (int k - 1)) [0..<length sts]"
      using sleeps_retry_trace [of rq 0 sts] by (simp add: sts(1) sleeps_append)
    have rqs: "length (requests w') = length (requests w) + 1 + length sts"
      by (simp add: sts(1) requests_append requests_retry_trace)
    show ?thesis
      using sts(1,2) bound exact sl rqs
      by (intro exI [of _ sts]) (auto simp: rq_def)
  qed
qed

theorem retry_backoff_witness:
  "\<exists>w'. transport (env_of [failing 429, failing 429, failing 429, ok (JStr ''done'')])
          ''query { a }'' (Some ''t'') [] 8 [] [] = (Inr (JStr ''done''), w')
        \<and> sleeps w' = [1 / 2, 1, 2] \<and> length (requests w') = 4"
proof -
  define e where "e = env_of [failing 429, failing 429, failing 429, ok (JStr ''done'')]"
  define rq where "rq = build_request e ''query { a }'' ''t'' [] []"
  define w' where "w' = [Post rq, Print 429 (1 / 2), Sleep (1 / 2), Post rq, Print 429 1, Sleep 1,
    Post rq, Print 429 2, Sleep 2, Post rq]"
  have run: "transport e ''query { a }'' (Some ''t'') [] 8 [] [] = (Inr (JStr ''done''), w')"
    by (simp add: transport_def exchange_def post_def e_def env_of_def scripted_def failing_def ok_def rq_def
        w'_def build_request_def retry_loop.simps [of _ _ _ 0] retry_loop.simps [of _ _ _ 1]
        retry_loop.simps [of _ _ _ 2] retry_loop.simps [of _ _ _ 3] retry_codes_def pow2_def
        Let_def)
  have t: "''t'' \<noteq> []" and m: "(0::int) \<le> 8"
    by simp_all
  from retry_backoff [OF t m run] obtain sts where
    "w' = [] @ Post (build_request e ''query { a }'' ''t'' [] [])
            # retry_trace (build_request e ''query { a }'' ''t'' [] []) 0 sts"
    "sleeps w' = sleeps [] @ map (\<lambda>k. pow2 (int k - 1)) [0..<length sts]"
    "length (requests w') = length (requests []) + 1 + length sts"
    by blast
  then show ?thesis
    using run by (intro exI [of _ w']) (simp add: e_def w'_def)
qed

section \<open>Errors in a reply\<close>

lemma transport_200:
  assumes "t \<noteq> []"
    and "server e w (build_request e query t accept kwargs) = rep"
    and "status_code rep = 200"
  shows "transport e query (Some t) accept max_retries kwargs w =
     (case body rep of
        None \<Rightarrow> (Inl JSONDecodeError, w @ [Post (build_request e query t accept kwargs)])
      | Some data \<Rightarrow>
          (case contains data ''errors'' of
             Inl x \<Rightarrow> (Inl x, w @ [Post (build_request e query t accept kwargs)])
           | Inr b \<Rightarrow>
               if b then
                 (case getitem data (Key ''errors'') of
                    Inl x \<Rightarrow> (Inl x, w @ [Post (build_request e query t accept kwargs)])
                  | Inr errs \<Rightarrow> (Inl (GraphQLError errs), w @ [Post (build_request e query t accept kwargs)]))
               else
                 (case getitem data (Key ''data'') of
                    Inl x \<Rightarrow> (Inl x, w @ [Post (build_request e query t accept kwargs)])
                  | Inr d \<Rightarrow> (Inr d, w @ [Post (build_request e query t accept kwargs)]))))"
  using assms
  by (simp add: transport_def exchange_def post_def Let_def retry_loop_stop ok_not_retried)

lemma transport_exchange:
  assumes "t \<noteq> []"
    and "exchange e query (build_request e query t accept kwargs) max_retries w = (rep, w1)"
    and "status_code rep = 200"
  shows "transport e query (Some t) accept max_retries kwargs w =
     (case body rep of
        None \<Rightarrow> (Inl JSONDecodeError, w1)
      | Some data \<Rightarrow>
          (case contains data ''errors'' of
             Inl x \<Rightarrow> (Inl x, w1)
           | Inr b \<Rightarrow>
               if b then
                 (case getitem data (Key ''errors'') of
                    Inl x \<Rightarrow> (Inl x, w1)
                  | Inr errs \<Rightarrow> (Inl (GraphQLError errs), w1))
               else
                 (case getitem data (Key ''data'') of
                    Inl x \<Rightarrow> (Inl x, w1)
                  | Inr d \<Rightarrow> (Inr d, w1))))"
  using assms by (simp add: transport_def Let_def)

text \<open>
  C8. The reply that ends the request and its retries, be it the first one or one that
  came after retried statuses, is a 200 whose body is a dict. When the body has an
  \<open>errors\<close> key, the call raises \<open>GraphQLError\<close> with the value under that key, whatever
  \<open>data\<close> holds and whatever the cursors are. When the key is absent, the value under
  \<open>data\<close> is returned, or is what the loop over the cursors starts from.
\<close>

theorem graphql_errors_precedence:
  assumes "t \<noteq> []"
    and "exchange e query (build_request e query t accept kwargs) max_retries w = (rep, w1)"
    and "status_code rep = 200"
    and "body rep = Some (JObj kvs)"
  shows "(map_of kvs ''errors'' = Some errs \<longrightarrow>
            graphql (Suc n) e query (Some t) accept max_retries cs prev_path kwargs w
              = Some (Inl (GraphQLError errs), w1))
       \<and> (map_of kvs ''errors'' = None \<longrightarrow> map_of kvs ''data'' = Some d \<longrightarrow>
            graphql (Suc n) e query (Some t) accept max_retries None prev_path kwargs w
              = Some (Inr d, w1)
          \<and> graphql (Suc n) e query (Some t) accept max_retries (Some c) prev_path kwargs w
              = (case cursors_loop (graphql n e query (Some t) accept max_retries) prev_path c
                        kwargs d w1 of
                   None \<Rightarrow> None
                 | Some (Inl x, w'') \<Rightarrow> Some (Inl x, w'')
                 | Some (Inr (kwargs', data'), w'') \<Rightarrow> Some (Inr data', w'')))"
proof -
  have in_keys: "map_of kvs ''errors'' = Some errs \<Longrightarrow> ''errors'' \<in> fst ` set kvs"
    by (metis map_of_eq_None_iff option.distinct(1))
  have not_in_keys: "map_of kvs ''errors'' = None \<Longrightarrow> ''errors'' \<notin> fst ` set kvs"
    by (simp add: map_of_eq_None_iff)
  show ?thesis
    using transport_exchange [OF assms(1-3)] assms(4) in_keys not_in_keys
    by (auto split: option.splits)
qed

theorem graphql_errors_precedence_witness:
  "graphql 1 (env_of [failing 500, bad_reply]) ''query { a }'' (Some ''t'') [] 8
       (Some [(''c'', PathList [''a''])]) [] [] []
     = Some (Inl (GraphQLError (JArr [JObj [(''message'', JStr ''bad'')]])),
             [Post (build_request (env_of []) ''query { a }'' ''t'' [] []),
              Print 500 (1 / 2), Sleep (1 / 2),
              Post (build_request (env_of []) ''query { a }'' ''t'' [] [])])
   \<and> graphql 1 (env_of [bad_reply]) ''query { a }'' (Some ''t'') [] 8 None [] [] []
     = Some (Inl (GraphQLError (JArr [JObj [(''message'', JStr ''bad'')]])),
             [Post (build_request (env_of []) ''query { a }'' ''t'' [] [])])
   \<and> graphql 1 (env_of [failing 503, ok (JStr ''x'')]) ''query { a }'' (Some ''t'') [] 8 None
       [] [] []
     = Some (Inr (JStr ''x''),
             [Post (build_request (env_of []) ''query { a }'' ''t'' [] []),
              Print 503 (1 / 2), Sleep (1 / 2),
              Post (build_request (env_of []) ''query { a }'' ''t'' [] [])])"
proof -
  let ?rq = "build_request (env_of []) ''query { a }'' ''t'' [] []"
  let ?errs = "JArr [JObj [(''message'', JStr ''bad'')]]"
  have x1: "exchange (env_of [failing 500, bad_reply]) ''query { a }''
              (build_request (env_of [failing 500, bad_reply]) ''query { a }'' ''t'' [] []) 8 []
            = (bad_reply, [Post ?rq, Print 500 (1 / 2), Sleep (1 / 2), Post ?rq])"
    by (simp add: exchange_def post_def env_of_def scripted_def failing_def bad_reply_def
        build_request_def retry_loop.simps [of _ _ _ 0] retry_loop.simps [of _ _ _ 1]
        retry_codes_def pow2_def Let_def)
  have x2: "exchange (env_of [bad_reply]) ''query { a }''
              (build_request (env_of [bad_reply]) ''query { a }'' ''t'' [] []) 8 []
            = (bad_reply, [Post ?rq])"
    by (simp add: exchange_def post_def env_of_def scripted_def bad_reply_def
        build_request_def retry_loop.simps [of _ _ _ 0] retry_codes_def Let_def)
  have x3: "exchange (env_of [failing 503, ok (JStr ''x'')]) ''query { a }''
              (build_request (env_of [failing 503, ok (JStr ''x'')]) ''query { a }'' ''t'' [] [])
              8 []
            = (ok (JStr ''x''), [Post ?rq, Print 503 (1 / 2), Sleep (1 / 2), Post ?rq])"
    by (simp add: exchange_def post_def env_of_def scripted_def failing_def ok_def
        build_request_def retry_loop.simps [of _ _ _ 0] retry_loop.simps [of _ _ _ 1]
        retry_codes_def pow2_def Let_def)
  have t: "''t'' \<noteq> []" by simp
  have s: "status_code bad_reply = 200" "status_code (ok (JStr ''x'')) = 200"
    "body bad_reply = Some (JObj [(''data'', JNull), (''errors'', ?errs)])"
    "body (ok (JStr ''x'')) = Some (JObj [(''data'', JStr ''x'')])"
    by (simp_all add: bad_reply_def ok_def)
  show ?thesis
    using graphql_errors_precedence [OF t x1 s(1) s(3), of ?errs 0
        "Some [(''c'', PathList [''a''])]" "[]"]
      graphql_errors_precedence [OF t x2 s(1) s(3), of ?errs 0 None "[]"]
      graphql_errors_precedence [OF t x3 s(2) s(4), of _ 0 _ "[]" "JStr ''x''"]
    by simp
qed

section \<open>Mutations\<close>

text \<open>
  C5. The comment of the source says that a mutation is not retried. The test is that the
  untrimmed text before the first \<open>(\<close> is exactly \<open>mutation\<close>: a mutation written with a
  space or a brace after the keyword, or after leading white space, is retried. Here the
  server answers 500 and then 200, and two requests are sent with a sleep in between.
\<close>

theorem mutation_is_retried:
  "graphql 1 (env_of [failing 500, ok (JStr ''done'')]) ''mutation { addStar }'' (Some ''t'') []
       8 None [] [] []
     = Some (Inr (JStr ''done''),
         [Post (build_request (env_of []) ''mutation { addStar }'' ''t'' [] []),
          Print 500 (1 / 2), Sleep (1 / 2),
          Post (build_request (env_of []) ''mutation { addStar }'' ''t'' [] [])])
   \<and> graphql 1 (env_of [failing 500, ok (JStr ''done'')]) '' mutation($x:Int) { addStar }''
       (Some ''t'') [] 8 None [] [] []
     = Some (Inr (JStr ''done''),
         [Post (build_request (env_of []) '' mutation($x:Int) { addStar }'' ''t'' [] []),
          Print 500 (1 / 2), Sleep (1 / 2),
          Post (build_request (env_of []) '' mutation($x:Int) { addStar }'' ''t'' [] [])])"
  by (simp add: transport_def exchange_def post_def env_of_def scripted_def failing_def ok_def
      build_request_def retry_loop.simps [of _ _ _ 0] retry_loop.simps [of _ _ _ 1]
      retry_codes_def pow2_def Let_def)

section \<open>A response of the wrong shape\<close>

lemma descend_append:
  "descend d (p @ q) = (case descend d p of Inl x \<Rightarrow> Inl x | Inr c \<Rightarrow> descend c q)"
  by (induction p arbitrary: d) (auto split: sum.splits)

lemma descend_absent_key:
  assumes "descend d p = Inr (JObj kvs)" and "map_of kvs k = None"
  shows "descend d (p @ Key k # q) = Inl KeyError"
  using assms by (simp add: descend_append)

lemma path_of_normalise [simp]: "path_of (normalise c) = path_of c"
  by (simp add: normalise_def)

lemma next_of_normalise [simp]: "next_of (normalise c) = next_of c"
  by (simp add: normalise_def)

lemma visit_descend_fails:
  "descend data (prev_path @ map Key (path_of c)) = Inl x \<Longrightarrow>
   visit rc prev_path cursor c kwargs data w = Some (Inl x, w)"
  by (simp add: visit_def)

lemma visit_no_pageInfo:
  "descend data (prev_path @ map Key (path_of c)) = Inr (JObj kvs) \<Longrightarrow>
   map_of kvs ''pageInfo'' = None \<Longrightarrow>
   visit rc prev_path cursor c kwargs data w = Some (Inl KeyError, w)"
  by (simp add: visit_def)

lemma cursors_loop_append:
  "cursors_loop rc prev_path (cs1 @ cs2) kwargs data w =
     (case cursors_loop rc prev_path cs1 kwargs data w of
        None \<Rightarrow> None
      | Some (Inl x, w') \<Rightarrow> Some (Inl x, w')
      | Some (Inr (kwargs', data'), w') \<Rightarrow> cursors_loop rc prev_path cs2 kwargs' data' w')"
  by (induction cs1 arbitrary: kwargs data w)
     (auto split: option.splits sum.splits prod.splits)

lemma getitem_builtin: "getitem d s = Inl x \<Longrightarrow> builtin x"
  by (induction d s rule: getitem.induct) (auto split: option.splits if_splits)

lemma descend_builtin: "descend d p = Inl x \<Longrightarrow> builtin x"
  by (induction p arbitrary: d) (auto split: sum.splits dest: getitem_builtin)

lemma pop_builtin: "pop d k = Inl x \<Longrightarrow> builtin x"
  by (induction d k rule: pop.induct) (auto split: option.splits if_splits)

lemma call_required_builtin: "call_required node_data nxt acc = Inl x \<Longrightarrow> builtin x"
  by (induction node_data nxt acc rule: call_required.induct)
     (auto split: sum.splits dest: getitem_builtin descend_builtin)

lemma visit_pop_fails:
  "descend data (prev_path @ map Key (path_of c)) = Inr obj \<Longrightarrow> pop obj ''pageInfo'' = Inl x \<Longrightarrow>
   visit rc prev_path cursor c kwargs data w = Some (Inl x, w)"
  by (simp add: visit_def)

lemma call_required_append:
  "call_required node_data (n1 @ n2) acc =
     (case call_required node_data n1 acc of
        Inl x \<Rightarrow> Inl x
      | Inr b \<Rightarrow> call_required node_data n2 b)"
  by (induction node_data n1 acc rule: call_required.induct) (auto split: sum.splits)

lemma call_required_KeyError:
  assumes "call_required node_data n1 acc = Inr b"
    and "(\<exists>pre k post kvs. path_of c = pre @ k # post
            \<and> descend node_data (map Key pre) = Inr (JObj kvs) \<and> map_of kvs k = None)
       \<or> (\<exists>kvs. descend node_data (map Key (path_of c)) = Inr (JObj kvs)
            \<and> map_of kvs ''pageInfo'' = None)"
  shows "call_required node_data (n1 @ (cursor, c) # n2) acc = Inl KeyError"
proof -
  have "descend node_data (map Key (path_of c)) = Inl KeyError
      \<or> (\<exists>kvs. descend node_data (map Key (path_of c)) = Inr (JObj kvs)
            \<and> map_of kvs ''pageInfo'' = None)"
    using assms(2)
  proof (elim disjE exE conjE)
    fix pre k post kvs
    assume p: "path_of c = pre @ k # post"
      and d: "descend node_data (map Key pre) = Inr (JObj kvs)"
      and m: "map_of kvs k = None"
    show ?thesis
      using descend_absent_key [OF d m, of "map Key post"] by (simp add: p)
  qed blast
  then show ?thesis
    using assms(1) by (auto simp: call_required_append)
qed

lemma nodes_loop_append:
  "nodes_loop rc nxt prev_path current_path kwargs (is1 @ is2) data w =
     (case nodes_loop rc nxt prev_path current_path kwargs is1 data w of
        None \<Rightarrow> None
      | Some (Inl x, w') \<Rightarrow> Some (Inl x, w')
      | Some (Inr data', w') \<Rightarrow> nodes_loop rc nxt prev_path current_path kwargs is2 data' w')"
  by (induction is1 arbitrary: data w)
     (auto simp: Let_def split: option.splits sum.splits prod.splits)

lemma visit_element_fails:
  assumes "descend data (prev_path @ map Key (path_of c)) = Inr obj"
    and "pop obj ''pageInfo'' = Inr (pinfo, obj')"
    and "getitem pinfo (Key ''hasNextPage'') = Inr h" and "\<not> truthy h"
    and "next_of c = Some nxt"
    and "getitem obj' (Key ''nodes'') = Inr ns" and "len ns = Inr k" and "i < k"
    and "nodes_loop rc nxt prev_path (prev_path @ map Key (path_of c)) kwargs [0..<i]
           (put (prev_path @ map Key (path_of c)) obj' data) w = Some (Inr data2, w2)"
    and "descend data2
           ((if prev_path = [] then prev_path @ map Key (path_of c) else prev_path)
              @ [Key ''nodes'', Idx i]) = Inr node_data"
    and "call_required node_data nxt False = Inl x"
  shows "visit rc prev_path cursor c kwargs data w = Some (Inl x, w2)"
proof -
  have "[0..<k] = [0..<i] @ [i..<k]"
    using upt_add_eq_append [of 0 i "k - i"] assms(8) by simp
  also have "[i..<k] = i # [Suc i..<k]"
    using assms(8) by (rule upt_conv_Cons)
  finally have "[0..<k] = [0..<i] @ i # [Suc i..<k]" .
  then have "nodes_loop rc nxt prev_path (prev_path @ map Key (path_of c)) kwargs [0..<k]
           (put (prev_path @ map Key (path_of c)) obj' data) w = Some (Inl x, w2)"
    using assms(9-11) by (simp add: nodes_loop_append Let_def)
  then show ?thesis
    using assms(1-7) by (simp add: visit_def)
qed

lemma getitem_key_not_dict: "(\<forall>kvs. v \<noteq> JObj kvs) \<Longrightarrow> getitem v (Key k) = Inl TypeError"
  by (cases v) auto

lemma pop_not_dict:
  "(\<forall>kvs. v \<noteq> JObj kvs) \<Longrightarrow>
   pop v k = Inl (case v of JArr xs \<Rightarrow> TypeError | _ \<Rightarrow> AttributeError)"
  by (cases v) auto

text \<open>
  C9. The cursors before this one have been visited and left the tree \<open>data1\<close>; the
  cursor \<open>c\<close> is the next one, its connection is looked for at its path \<open>P\<close> below
  \<open>prev_path\<close>.

  \<^item> When a key of the path is absent from the dict reached so far, or the dict at the end
    of the path has no \<open>pageInfo\<close>, the call raises \<open>KeyError\<close>.
  \<^item> Whatever makes the descent along the path or the removal of \<open>pageInfo\<close> fail, the
    call raises the exception of that step, and it is a builtin one.
  \<^item> When the value reached before a key of the path is not a dict, that is \<open>TypeError\<close>.
  \<^item> When the value at the end of the path is not a dict, it is \<open>TypeError\<close> for a list
    and \<open>AttributeError\<close> for anything else.
  \<^item> The same holds for the nested cursors \<open>nxt\<close> of \<open>c\<close>, which are checked for each
    element of the last page: the elements before the one numbered \<open>i\<close> have been
    handled and left the tree \<open>data2\<close>, and \<open>node_data\<close> is that element. When the check
    of its nested connections fails, the call raises the exception of the check, a builtin
    one; it is \<open>KeyError\<close> when a key of a nested cursor's path is absent from the dict
    reached so far inside the element, or the dict at the end of that path has no
    \<open>pageInfo\<close>.
\<close>

theorem shape_failure_raises_builtin:
  assumes "transport e query token accept max_retries kwargs w = (Inr data, w0)"
    and "cursors_loop (graphql n e query token accept max_retries) prev_path cs1 kwargs data w0
           = Some (Inr (kwargs1, data1), w1)"
  shows "((\<exists>pre k post kvs. path_of c = pre @ k # post
             \<and> descend data1 (prev_path @ map Key pre) = Inr (JObj kvs) \<and> map_of kvs k = None)
          \<or> (\<exists>kvs. descend data1 (prev_path @ map Key (path_of c)) = Inr (JObj kvs)
             \<and> map_of kvs ''pageInfo'' = None)
          \<longrightarrow> graphql (Suc n) e query token accept max_retries (Some (cs1 @ (cursor, c) # rest))
                prev_path kwargs w = Some (Inl KeyError, w1))
       \<and> (descend data1 (prev_path @ map Key (path_of c)) = Inl x
          \<or> (\<exists>obj. descend data1 (prev_path @ map Key (path_of c)) = Inr obj
                \<and> pop obj ''pageInfo'' = Inl x)
          \<longrightarrow> graphql (Suc n) e query token accept max_retries (Some (cs1 @ (cursor, c) # rest))
                prev_path kwargs w = Some (Inl x, w1)
              \<and> builtin x)
       \<and> (path_of c = ks1 @ key # ks2 \<and> descend data1 (prev_path @ map Key ks1) = Inr v
            \<and> (\<forall>kvs. v \<noteq> JObj kvs)
          \<longrightarrow> graphql (Suc n) e query token accept max_retries (Some (cs1 @ (cursor, c) # rest))
                prev_path kwargs w = Some (Inl TypeError, w1))
       \<and> (descend data1 (prev_path @ map Key (path_of c)) = Inr v' \<and> (\<forall>kvs. v' \<noteq> JObj kvs)
          \<longrightarrow> graphql (Suc n) e query token accept max_retries (Some (cs1 @ (cursor, c) # rest))
                prev_path kwargs w
              = Some (Inl (case v' of JArr xs \<Rightarrow> TypeError | _ \<Rightarrow> AttributeError), w1))
       \<and> (descend data1 (prev_path @ map Key (path_of c)) = Inr obj
            \<and> pop obj ''pageInfo'' = Inr (pinfo, obj')
            \<and> getitem pinfo (Key ''hasNextPage'') = Inr h \<and> \<not> truthy h
            \<and> next_of c = Some nxt
            \<and> getitem obj' (Key ''nodes'') = Inr ns \<and> len ns = Inr m \<and> i < m
            \<and> nodes_loop (graphql n e query token accept max_retries) nxt prev_path
                 (prev_path @ map Key (path_of c)) kwargs1 [0..<i]
                 (put (prev_path @ map Key (path_of c)) obj' data1) w1 = Some (Inr data2, w2)
            \<and> descend data2
                 ((if prev_path = [] then prev_path @ map Key (path_of c) else prev_path)
                    @ [Key ''nodes'', Idx i]) = Inr node_data
          \<longrightarrow> (call_required node_data nxt False = Inl y
               \<longrightarrow> graphql (Suc n) e query token accept max_retries
                     (Some (cs1 @ (cursor, c) # rest)) prev_path kwargs w = Some (Inl y, w2)
                   \<and> builtin y)
             \<and> (nxt = n1 @ (cursor', c') # n2 \<and> call_required node_data n1 False = Inr b
                 \<and> ((\<exists>pre k post kvs. path_of c' = pre @ k # post
                        \<and> descend node_data (map Key pre) = Inr (JObj kvs) \<and> map_of kvs k = None)
                     \<or> (\<exists>kvs. descend node_data (map Key (path_of c')) = Inr (JObj kvs)
                        \<and> map_of kvs ''pageInfo'' = None))
               \<longrightarrow> graphql (Suc n) e query token accept max_retries
                     (Some (cs1 @ (cursor, c) # rest)) prev_path kwargs w
                   = Some (Inl KeyError, w2)))"
  (is "?A \<and> ?B \<and> ?C \<and> ?D \<and> ?E")
proof -
  let ?rc = "graphql n e query token accept max_retries"
  let ?P = "prev_path @ map Key (path_of c)"
  have lift: "graphql (Suc n) e query token accept max_retries (Some (cs1 @ (cursor, c) # rest))
                prev_path kwargs w = Some (Inl z, w')"
    if "visit ?rc prev_path cursor c kwargs1 data1 w1 = Some (Inl z, w')" for z w'
    using assms that by (auto simp: cursors_loop_append)
  have a: ?A
  proof (intro impI, elim disjE exE conjE)
    fix pre k post kvs
    assume p: "path_of c = pre @ k # post"
      and d: "descend data1 (prev_path @ map Key pre) = Inr (JObj kvs)"
      and m: "map_of kvs k = None"
    have "descend data1 ?P = Inl KeyError"
      using descend_absent_key [OF d m, of "map Key post"] by (simp add: p)
    then show "graphql (Suc n) e query token accept max_retries
        (Some (cs1 @ (cursor, c) # rest)) prev_path kwargs w = Some (Inl KeyError, w1)"
      by (intro lift visit_descend_fails)
  next
    fix kvs
    assume "descend data1 ?P = Inr (JObj kvs)" and "map_of kvs ''pageInfo'' = None"
    then show "graphql (Suc n) e query token accept max_retries
        (Some (cs1 @ (cursor, c) # rest)) prev_path kwargs w = Some (Inl KeyError, w1)"
      by (intro lift visit_no_pageInfo)
  qed
  have b: ?B
  proof (intro impI, elim disjE exE conjE)
    assume d: "descend data1 ?P = Inl x"
    show "graphql (Suc n) e query token accept max_retries
        (Some (cs1 @ (cursor, c) # rest)) prev_path kwargs w = Some (Inl x, w1) \<and> builtin x"
      using lift [OF visit_descend_fails [OF d]] descend_builtin [OF d] by simp
  next
    fix obj
    assume d: "descend data1 ?P = Inr obj" and p: "pop obj ''pageInfo'' = Inl x"
    show "graphql (Suc n) e query token accept max_retries
        (Some (cs1 @ (cursor, c) # rest)) prev_path kwargs w = Some (Inl x, w1) \<and> builtin x"
      using lift [OF visit_pop_fails [OF d p]] pop_builtin [OF p] by simp
  qed
  have c: ?C
  proof (intro impI, elim conjE)
    assume p: "path_of c = ks1 @ key # ks2"
      and d: "descend data1 (prev_path @ map Key ks1) = Inr v"
      and v: "\<forall>kvs. v \<noteq> JObj kvs"
    have "descend data1 ((prev_path @ map Key ks1) @ Key key # map Key ks2) = Inl TypeError"
      using d getitem_key_not_dict [OF v, of key] by (simp only: descend_append) simp
    then have "descend data1 ?P = Inl TypeError"
      by (simp add: p)
    then show "graphql (Suc n) e query token accept max_retries
        (Some (cs1 @ (cursor, c) # rest)) prev_path kwargs w = Some (Inl TypeError, w1)"
      by (intro lift visit_descend_fails)
  qed
  have d: ?D
  proof (intro impI, elim conjE)
    assume d: "descend data1 ?P = Inr v'" and v: "\<forall>kvs. v' \<noteq> JObj kvs"
    show "graphql (Suc n) e query token accept max_retries
        (Some (cs1 @ (cursor, c) # rest)) prev_path kwargs w
        = Some (Inl (case v' of JArr xs \<Rightarrow> TypeError | _ \<Rightarrow> AttributeError), w1)"
      by (intro lift visit_pop_fails [OF d] pop_not_dict [OF v])
  qed
  have e: ?E
  proof (intro impI conjI; elim conjE)
    assume r: "descend data1 ?P = Inr obj" "pop obj ''pageInfo'' = Inr (pinfo, obj')"
      "getitem pinfo (Key ''hasNextPage'') = Inr h" "\<not> truthy h" "next_of c = Some nxt"
      "getitem obj' (Key ''nodes'') = Inr ns" "len ns = Inr m" "i < m"
      "nodes_loop ?rc nxt prev_path ?P kwargs1 [0..<i] (put ?P obj' data1) w1
         = Some (Inr data2, w2)"
      "descend data2 ((if prev_path = [] then ?P else prev_path) @ [Key ''nodes'', Idx i])
         = Inr node_data"
    {
      assume f: "call_required node_data nxt False = Inl y"
      show "graphql (Suc n) e query token accept max_retries
          (Some (cs1 @ (cursor, c) # rest)) prev_path kwargs w = Some (Inl y, w2)"
        by (rule lift [OF visit_element_fails [OF r f]])
      show "builtin y"
        using f by (rule call_required_builtin)
    }
    {
      assume n: "nxt = n1 @ (cursor', c') # n2"
        and q: "call_required node_data n1 False = Inr b"
        and miss: "(\<exists>pre k post kvs. path_of c' = pre @ k # post
                        \<and> descend node_data (map Key pre) = Inr (JObj kvs) \<and> map_of kvs k = None)
                     \<or> (\<exists>kvs. descend node_data (map Key (path_of c')) = Inr (JObj kvs)
                        \<and> map_of kvs ''pageInfo'' = None)"
      have f: "call_required node_data nxt False = Inl KeyError"
        unfolding n using q miss by (rule call_required_KeyError)
      show "graphql (Suc n) e query token accept max_retries
          (Some (cs1 @ (cursor, c) # rest)) prev_path kwargs w = Some (Inl KeyError, w2)"
        by (rule lift [OF visit_element_fails [OF r f]])
    }
  qed
  from a b c d e show ?thesis by (intro conjI)
qed

theorem shape_failure_raises_builtin_witness:
  "graphql 1 (env_of [ok (JObj [(''repository'', JObj [])])]) ''query { a }'' (Some ''t'') [] 8
       (Some [(''c'', PathList [''repository'', ''issues''])]) [] [] []
     = Some (Inl KeyError, [sent []])
   \<and> graphql 1 (env_of [ok (prs_doc (conn ''P'' False [JObj []]))]) ''query { a }'' (Some ''t'')
       [] 8 (Some nested_cursors) [] [] []
     = Some (Inl KeyError, [sent []])"
proof -
  define e where "e = env_of [ok (JObj [(''repository'', JObj [])])]"
  have h1: "transport e ''query { a }'' (Some ''t'') [] 8 [] []
              = (Inr (JObj [(''repository'', JObj [])]), [sent []])"
    by (simp add: transport_def exchange_def post_def e_def env_of_def scripted_def ok_def
        sent_def build_request_def retry_loop_stop retry_codes_def)
  have h2: "cursors_loop (graphql 0 e ''query { a }'' (Some ''t'') [] 8) [] [] []
              (JObj [(''repository'', JObj [])]) [sent []]
            = Some (Inr ([], JObj [(''repository'', JObj [])]), [sent []])"
    by simp
  have h3: "(\<exists>pre k post kvs. path_of (PathList [''repository'', ''issues'']) = pre @ k # post
            \<and> descend (JObj [(''repository'', JObj [])]) ([] @ map Key pre) = Inr (JObj kvs)
            \<and> map_of kvs k = None)
       \<or> (\<exists>kvs. descend (JObj [(''repository'', JObj [])])
              ([] @ map Key (path_of (PathList [''repository'', ''issues'']))) = Inr (JObj kvs)
            \<and> map_of kvs ''pageInfo'' = None)"
    by (intro disjI1 exI [where x = "[''repository'']"] exI [where x = "''issues''"]
        exI [where x = "[]"]) simp
  define e' where "e' = env_of [ok (prs_doc (conn ''P'' False [JObj []]))]"
  define c where "c = CNode [''repository'', ''pullRequests'']
                        (Some [(''cursor3'', CNode [''timelineItems''] None)])"
  define obj' where "obj' = JObj [(''nodes'', JArr [JObj []])]"
  define pinfo where "pinfo = JObj [(''endCursor'', JStr ''P''), (''hasNextPage'', JBool False)]"
  have k1: "transport e' ''query { a }'' (Some ''t'') [] 8 [] []
              = (Inr (prs_doc (conn ''P'' False [JObj []])), [sent []])"
    by (simp add: transport_def exchange_def post_def e'_def env_of_def scripted_def ok_def
        sent_def build_request_def retry_loop_stop retry_codes_def)
  have k2: "cursors_loop (graphql 0 e' ''query { a }'' (Some ''t'') [] 8) [] [] []
              (prs_doc (conn ''P'' False [JObj []])) [sent []]
            = Some (Inr ([], prs_doc (conn ''P'' False [JObj []])), [sent []])"
    by simp
  have k3: "descend (prs_doc (conn ''P'' False [JObj []])) ([] @ map Key (path_of c))
              = Inr (conn ''P'' False [JObj []])
          \<and> pop (conn ''P'' False [JObj []]) ''pageInfo'' = Inr (pinfo, obj')
          \<and> getitem pinfo (Key ''hasNextPage'') = Inr (JBool False) \<and> \<not> truthy (JBool False)
          \<and> next_of c = Some [(''cursor3'', CNode [''timelineItems''] None)]
          \<and> getitem obj' (Key ''nodes'') = Inr (JArr [JObj []]) \<and> len (JArr [JObj []]) = Inr 1
          \<and> 0 < (1 :: nat)
          \<and> nodes_loop (graphql 0 e' ''query { a }'' (Some ''t'') [] 8)
               [(''cursor3'', CNode [''timelineItems''] None)] []
               ([] @ map Key (path_of c)) [] [0..<0]
               (put ([] @ map Key (path_of c)) obj' (prs_doc (conn ''P'' False [JObj []])))
               [sent []]
              = Some (Inr (prs_doc obj'), [sent []])
          \<and> descend (prs_doc obj')
               ((if ([] :: seg list) = [] then [] @ map Key (path_of c) else [])
                  @ [Key ''nodes'', Idx 0]) = Inr (JObj [])"
    by (simp add: c_def prs_doc_def conn_def obj'_def pinfo_def)
  have k4: "[(''cursor3'', CNode [''timelineItems''] None)]
              = [] @ (''cursor3'', CNode [''timelineItems''] None) # []
          \<and> call_required (JObj []) [] False = Inr False
          \<and> ((\<exists>pre k post kvs. path_of (CNode [''timelineItems''] None) = pre @ k # post
                 \<and> descend (JObj []) (map Key pre) = Inr (JObj kvs) \<and> map_of kvs k = None)
              \<or> (\<exists>kvs. descend (JObj []) (map Key (path_of (CNode [''timelineItems''] None)))
                     = Inr (JObj kvs)
                 \<and> map_of kvs ''pageInfo'' = None))"
    by (intro conjI disjI1 exI [where x = "[]"] exI [where x = "''timelineItems''"]) simp_all
  note top = shape_failure_raises_builtin [where c = "PathList [''repository'', ''issues'']"
      and cursor = "''c''" and rest = "[]", OF h1 h2, THEN conjunct1, THEN mp, OF h3]
  note nested = shape_failure_raises_builtin [where c = c and cursor = "''cursor2''"
      and rest = "[]", OF k1 k2, THEN conjunct2, THEN conjunct2, THEN conjunct2, THEN conjunct2, THEN mp, OF k3,
      THEN conjunct2, THEN mp, OF k4]
  from top nested show ?thesis
    by (simp add: e_def e'_def c_def nested_cursors_def)
qed

text \<open>
  The claim says \<open>KeyError\<close> whenever a segment of the path is absent from the response or
  the object reached has no \<open>pageInfo\<close>. Here the response has \<open>null\<close> for the repository,
  so that the segment \<open>issues\<close> is absent, and the call raises \<open>TypeError\<close>; here it has
  \<open>null\<close> for the connection itself, which has no \<open>pageInfo\<close>, and the call raises
  \<open>AttributeError\<close>; and here a pull request has \<open>null\<close> for its nested connection, and the
  check of the element raises \<open>TypeError\<close>.
\<close>

theorem null_container_not_KeyError:
  "graphql 1 (env_of [ok (JObj [(''repository'', JNull)])]) ''query { a }'' (Some ''t'') [] 8
       (Some [(''c'', PathList [''repository'', ''issues''])]) [] [] []
     = Some (Inl TypeError, [sent []])
   \<and> graphql 1 (env_of [ok (issues_doc JNull)]) ''query { a }'' (Some ''t'') [] 8
       (Some [(''c'', PathList [''repository'', ''issues''])]) [] [] []
     = Some (Inl AttributeError, [sent []])
   \<and> graphql 1 (env_of [ok (prs_doc (conn ''P'' False [pr JNull]))]) ''query { a }'' (Some ''t'')
       [] 8 (Some nested_cursors) [] [] []
     = Some (Inl TypeError, [sent []])"
  by code_simp

section \<open>The frame of the depagination\<close>

lemma getitem_setitem_other: "s \<noteq> s' \<Longrightarrow> getitem (setitem d s y) s' = getitem d s'"
  by (cases "(d, s, y)" rule: setitem.cases; cases s')
     (auto simp: update_conv' nth_list_update)

lemma getitem_setitem_same:
  "getitem d s = Inr c \<Longrightarrow> getitem (setitem d s y) s = (case d of JStr t \<Rightarrow> Inr c | _ \<Rightarrow> Inr y)"
  by (cases "(d, s, y)" rule: setitem.cases)
     (auto simp: update_conv' split: if_splits option.splits json.splits)

lemma descend_JStr: "descend (JStr t) p = Inr x \<Longrightarrow> \<exists>u. x = JStr u"
  by (induction p arbitrary: t) (auto split: sum.splits seg.splits if_splits elim: getitem.elims)

lemma put_descend_other:
  "\<not> prefix p q \<Longrightarrow> \<not> prefix q p \<Longrightarrow> descend (put p v d) q = descend d q"
proof (induction p arbitrary: d q)
  case Nil
  then show ?case by simp
next
  case (Cons s ss)
  then obtain s' qs where q: "q = s' # qs"
    by (cases q) auto
  show ?case
  proof (cases "getitem d s")
    case (Inl x)
    then show ?thesis by simp
  next
    case (Inr c)
    show ?thesis
    proof (cases "s' = s")
      case False
      then show ?thesis
        using Inr by (simp add: q getitem_setitem_other)
    next
      case True
      then have "\<not> prefix ss qs" "\<not> prefix qs ss"
        using Cons.prems by (simp_all add: q)
      then have ih: "descend (put ss v c) qs = descend c qs"
        by (rule Cons.IH)
      show ?thesis
        using Inr True ih getitem_setitem_same [OF Inr, of "put ss v c"]
        by (cases d) (simp_all add: q)
    qed
  qed
qed

lemma put_descend_same:
  "descend d p = Inr x \<Longrightarrow> (\<And>u. x \<noteq> JStr u) \<Longrightarrow> descend (put p v d) (p @ q) = descend v q"
proof (induction p arbitrary: d)
  case Nil
  then show ?case by simp
next
  case (Cons s ss)
  from Cons.prems(1) obtain c where c: "getitem d s = Inr c" "descend c ss = Inr x"
    by (auto split: sum.splits)
  have not_str: "\<And>t. d \<noteq> JStr t"
  proof
    fix t assume "d = JStr t"
    with c obtain t' where "c = JStr t'"
      by (cases s) (auto split: if_splits)
    with c(2) Cons.prems(2) descend_JStr show False by blast
  qed
  have "getitem (setitem d s (put ss v c)) s = Inr (put ss v c)"
    using getitem_setitem_same [OF c(1), of "put ss v c"] not_str by (cases d) auto
  then show ?case
    using c Cons.IH [OF c(2) Cons.prems(2)] by simp
qed

lemma nested_atI:
  "next_of n = Some nxt \<Longrightarrow> (c', n') \<in> set nxt \<Longrightarrow>
   nested_at n (map Key (path_of n) @ [Key ''nodes'', Idx i] @ map Key (path_of n'))"
  by (force simp: nested_at_def)

lemma nested_at_prefix:
  "nested_at n p \<Longrightarrow> prefix (map Key (path_of n) @ [Key ''nodes'']) p"
proof -
  assume a: "nested_at n p"
  then obtain i rest where "drop (length (path_of n)) p = Key ''nodes'' # Idx i # rest"
    and "take (length (path_of n)) p = map Key (path_of n)"
    by (auto simp: nested_at_def split: option.splits elim: is_elem_path.elims)
  then have "p = map Key (path_of n) @ Key ''nodes'' # Idx i # rest"
    by (metis append_take_drop_id)
  then show ?thesis by (simp add: prefix_def)
qed

lemma allowed_mono: "set cs \<subseteq> set cs' \<Longrightarrow> allowed cs p \<Longrightarrow> allowed cs' p"
  by (cases p) auto

lemma incomparable_extend: "\<not> comparable q a \<Longrightarrow> prefix a b \<Longrightarrow> \<not> comparable q b"
  unfolding comparable_def
  by (meson prefix_order.trans prefix_same_cases)

lemma outside_loc: "allowed cs p \<Longrightarrow> outside cs q \<Longrightarrow> \<not> comparable q (loc p)"
proof (cases p)
  case (Strip x)
  assume "allowed cs p" "outside cs q"
  with Strip show ?thesis by (auto simp: outside_def)
next
  case (Extend x ys)
  assume "allowed cs p" "outside cs q"
  with Extend show ?thesis by (auto simp: outside_def)
next
  case (Replace x v)
  assume a: "allowed cs p" and o: "outside cs q"
  from a Replace obtain kc where kc: "kc \<in> set cs" "nested_at (snd kc) x"
    by auto
  have "prefix (map Key (path_of (snd kc)) @ [Key ''nodes'']) (x @ [Key ''nodes''])"
    using nested_at_prefix [OF kc(2)] by (simp add: prefix_order.trans)
  moreover have "\<not> comparable q (map Key (path_of (snd kc)) @ [Key ''nodes''])"
    using o kc(1) by (auto simp: outside_def)
  ultimately show ?thesis
    using Replace incomparable_extend by simp
qed

lemma put_key_frame:
  assumes d: "descend d p = Inr (JObj kvs)"
    and same: "\<And>k'. k' \<noteq> k \<Longrightarrow> map_of kvs' k' = map_of kvs k'"
    and q: "\<not> comparable q (p @ [Key k])"
  shows "descend (put p (JObj kvs') d) q = descend d q"
proof (cases "prefix p q")
  case False
  moreover have "\<not> prefix q p"
    using q by (auto simp: comparable_def)
  ultimately show ?thesis by (rule put_descend_other)
next
  case True
  then obtain r where r: "q = p @ r"
    by (auto simp: prefix_def)
  with q obtain s rs where srs: "r = s # rs" "s \<noteq> Key k"
    by (cases r) (auto simp: comparable_def)
  have g: "getitem (JObj kvs') s = getitem (JObj kvs) s"
    using srs(2) same by (cases s) auto
  have "descend (put p (JObj kvs') d) (p @ r) = descend (JObj kvs') r"
    using d by (intro put_descend_same) auto
  also have "\<dots> = descend (JObj kvs) r"
    using g by (simp add: srs(1))
  also have "\<dots> = descend d (p @ r)"
    using d by (simp add: descend_append)
  finally show ?thesis by (simp add: r)
qed

lemma apply_patch_frame: "\<not> comparable q (loc p) \<Longrightarrow> descend (apply_patch p d) q = descend d q"
proof (cases p)
  case (Strip x)
  assume q: "\<not> comparable q (loc p)"
  show ?thesis
  proof (cases "descend d x")
    case (Inl a)
    then show ?thesis using Strip by (simp add: apply_patch.simps)
  next
    case (Inr obj)
    show ?thesis
    proof (cases obj)
      case (JObj kvs)
      have "descend (put x (JObj (AList.delete ''pageInfo'' kvs)) d) q = descend d q"
        using Inr JObj q Strip by (intro put_key_frame [where k = "''pageInfo''" and kvs = kvs]) auto
      then show ?thesis
        using Strip Inr JObj by (simp add: apply_patch.simps split: option.splits)
    qed (use Strip Inr in \<open>simp_all add: apply_patch.simps\<close>)
  qed
next
  case (Extend x ys)
  assume q: "\<not> comparable q (loc p)"
  then have "\<not> prefix (x @ [Key ''nodes'']) q" "\<not> prefix q (x @ [Key ''nodes''])"
    using Extend by (auto simp: comparable_def)
  then show ?thesis
    using Extend by (auto simp: apply_patch.simps put_descend_other split: sum.splits json.splits)
next
  case (Replace x v)
  assume q: "\<not> comparable q (loc p)"
  show ?thesis
  proof (cases "descend d x")
    case (Inl a)
    then show ?thesis using Replace by (simp add: apply_patch.simps)
  next
    case (Inr obj)
    show ?thesis
    proof (cases obj)
      case (JObj kvs)
      have "descend (put x (JObj (AList.update ''nodes'' v kvs)) d) q = descend d q"
        using Inr JObj q Replace
        by (intro put_key_frame [where k = "''nodes''" and kvs = kvs]) (auto simp: update_conv')
      then show ?thesis
        using Replace Inr JObj by (simp add: apply_patch.simps)
    qed (use Replace Inr in \<open>simp_all add: apply_patch.simps\<close>)
  qed
qed

lemma fold_apply_patch_frame:
  "\<forall>p \<in> set ps. \<not> comparable q (loc p) \<Longrightarrow> descend (fold apply_patch ps d) q = descend d q"
  by (induction ps arbitrary: d) (auto simp: apply_patch_frame)

lemma recurse_Inr:
  "recurse rc cs prev_path kwargs w = Some (Inr x, w') \<Longrightarrow> rc cs prev_path kwargs w = Some (Inr x, w')"
  by (auto simp: recurse_def split: if_splits)

lemma descend2_descend:
  "descend2 a b p = Inr (x, y) \<Longrightarrow> descend a p = Inr x \<and> descend b p = Inr y"
  by (induction p arbitrary: a b) (auto split: sum.splits)

lemma extend_nodes_patch:
  "extend_nodes data nx p = Inr data' \<Longrightarrow> \<exists>ys. data' = apply_patch (Extend p ys) data"
  by (auto simp: extend_nodes_def apply_patch.simps split: sum.splits json.splits)

lemma weld_patches:
  "weld data nx cpn children = Inr data' \<Longrightarrow>
   \<exists>ps. data' = fold apply_patch ps data
      \<and> (\<forall>p \<in> set ps. \<exists>v kc. p = Replace (cpn @ map Key (path_of (snd kc))) v \<and> kc \<in> set children)"
proof (induction children arbitrary: data)
  case Nil
  then show ?case by (intro exI [of _ "[]"]) simp
next
  case (Cons kc children)
  obtain c n where kc: "kc = (c, n)" by (cases kc)
  define j where "j = cpn @ map Key (path_of n)"
  from Cons.prems obtain obj_nested next_nested v obj' where
    st: "descend2 data nx j = Inr (obj_nested, next_nested)"
      "getitem next_nested (Key ''nodes'') = Inr v"
      "assign obj_nested ''nodes'' v = Inr obj'"
      "weld (put j obj' data) nx cpn children = Inr data'"
    by (auto simp: kc j_def Let_def split: sum.splits prod.splits)
  have one: "put j obj' data = apply_patch (Replace j v) data"
    using descend2_descend [OF st(1)] st(3) by (simp add: apply_patch.simps)
  from Cons.IH [OF st(4)] obtain ps where
    ps: "data' = fold apply_patch ps (put j obj' data)"
      "\<forall>p \<in> set ps. \<exists>v kc. p = Replace (cpn @ map Key (path_of (snd kc))) v \<and> kc \<in> set children"
    by blast
  show ?case
  proof (intro exI [of _ "Replace j v # ps"] conjI ballI)
    show "data' = fold apply_patch (Replace j v # ps) data"
      using ps(1) one by simp
  next
    fix p assume "p \<in> set (Replace j v # ps)"
    then show "\<exists>v kc'. p = Replace (cpn @ map Key (path_of (snd kc'))) v \<and> kc' \<in> set (kc # children)"
      using ps(2) kc j_def by (cases "p = Replace j v") fastforce+
  qed
qed

lemma nodes_loop_patches:
  "nodes_loop rc nxt prev_path cp kwargs is data w = Some (Inr data', w') \<Longrightarrow>
   \<exists>ps. data' = fold apply_patch ps data
      \<and> (\<forall>p \<in> set ps. \<exists>v i kc.
            p = Replace ((if prev_path = [] then cp else prev_path) @ [Key ''nodes'', Idx i]
                           @ map Key (path_of (snd kc))) v
            \<and> kc \<in> set nxt)"
proof (induction "is" arbitrary: data w)
  case Nil
  then show ?case by (intro exI [of _ "[]"]) simp
next
  case (Cons i "is")
  define cpn where "cpn = (if prev_path = [] then cp else prev_path) @ [Key ''nodes'', Idx i]"
  let ?good = "\<lambda>p. \<exists>v i kc.
            p = Replace ((if prev_path = [] then cp else prev_path) @ [Key ''nodes'', Idx i]
                           @ map Key (path_of (snd kc))) v
            \<and> kc \<in> set nxt"
  from Cons.prems obtain node_data b where
    nd: "descend data cpn = Inr node_data" "call_required node_data nxt False = Inr b"
    by (auto simp: cpn_def Let_def split: sum.splits)
  show ?case
  proof (cases b)
    case False
    then have "nodes_loop rc nxt prev_path cp kwargs is data w = Some (Inr data', w')"
      using Cons.prems nd by (simp add: cpn_def Let_def)
    from Cons.IH [OF this] show ?thesis .
  next
    case True
    then obtain nx w1 data1 where
      st: "weld data nx cpn nxt = Inr data1"
        "nodes_loop rc nxt prev_path cp kwargs is data1 w1 = Some (Inr data', w')"
      using Cons.prems nd
      by (auto simp: cpn_def Let_def split: option.splits sum.splits prod.splits)
    from weld_patches [OF st(1)] obtain ps1 where
      ps1: "data1 = fold apply_patch ps1 data"
        "\<forall>p \<in> set ps1. \<exists>v kc. p = Replace (cpn @ map Key (path_of (snd kc))) v \<and> kc \<in> set nxt"
      by blast
    from Cons.IH [OF st(2)] obtain ps2 where
      ps2: "data' = fold apply_patch ps2 data1" "\<forall>p \<in> set ps2. ?good p"
      by blast
    have "\<forall>p \<in> set ps1. ?good p"
      using ps1(2) by (fastforce simp: cpn_def)
    then show ?thesis
      using ps1(1) ps2 by (intro exI [of _ "ps1 @ ps2"]) auto
  qed
qed

lemma visit_patches:
  assumes "visit rc [] cursor c kwargs data w = Some (Inr (kwargs', data'), w')"
  shows "\<exists>ps. data' = fold apply_patch ps data \<and> list_all (allowed [(cursor, c)]) ps"
proof -
  define P where "P = map Key (path_of c)"
  from assms obtain obj pinfo obj' hasNextPage where
    st: "descend data P = Inr obj" "pop obj ''pageInfo'' = Inr (pinfo, obj')"
      "getitem pinfo (Key ''hasNextPage'') = Inr hasNextPage"
    by (auto simp: visit_def P_def Let_def split: sum.splits prod.splits)
  define data1 where "data1 = put P obj' data"
  have strip: "data1 = apply_patch (Strip P) data"
    using st by (simp add: data1_def apply_patch.simps)
  have a_strip: "allowed [(cursor, c)] (Strip P)" and a_ext: "\<And>ys. allowed [(cursor, c)] (Extend P ys)"
    by (simp_all add: P_def)
  show ?thesis
  proof (cases "truthy hasNextPage")
    case True
    then obtain nx where "extend_nodes data1 nx P = Inr data'"
      using assms st
      by (auto simp: visit_def P_def data1_def Let_def split: sum.splits prod.splits option.splits)
    from extend_nodes_patch [OF this] obtain ys where "data' = apply_patch (Extend P ys) data1"
      by blast
    then show ?thesis
      using strip a_strip a_ext
      by (intro exI [of _ "[Strip P, Extend P ys]"]) (simp del: apply_patch.simps allowed.simps)
  next
    case False
    show ?thesis
    proof (cases "next_of c")
      case None
      then have "data' = data1"
        using assms st False
        by (auto simp: visit_def P_def data1_def Let_def split: sum.splits prod.splits option.splits)
      then show ?thesis
        using strip a_strip
        by (intro exI [of _ "[Strip P]"]) (simp del: apply_patch.simps allowed.simps)
    next
      case (Some nxt)
      then obtain k where "nodes_loop rc nxt [] P kwargs [0..<k] data1 w = Some (Inr data', w')"
        using assms st False
        by (auto simp: visit_def P_def data1_def Let_def split: sum.splits prod.splits option.splits)
      from nodes_loop_patches [OF this] obtain ps where
        ps: "data' = fold apply_patch ps data1"
          "\<forall>p \<in> set ps. \<exists>v i kc.
             p = Replace (P @ [Key ''nodes'', Idx i] @ map Key (path_of (snd kc))) v \<and> kc \<in> set nxt"
        by auto
      have "\<forall>p \<in> set ps. allowed [(cursor, c)] p"
      proof
        fix p assume "p \<in> set ps"
        with ps(2) obtain v i kc where
          p: "p = Replace (P @ [Key ''nodes'', Idx i] @ map Key (path_of (snd kc))) v" "kc \<in> set nxt"
          by blast
        have "nested_at c (map Key (path_of c) @ [Key ''nodes'', Idx i] @ map Key (path_of (snd kc)))"
          using nested_atI [OF Some, of "fst kc" "snd kc" i] p(2) by simp
        then show "allowed [(cursor, c)] p"
          by (simp add: p(1) P_def)
      qed
      then show ?thesis
        using ps(1) strip a_strip
        by (intro exI [of _ "Strip P # ps"])
           (simp add: list_all_iff del: apply_patch.simps allowed.simps)
    qed
  qed
qed

lemma cursors_loop_patches:
  "cursors_loop rc [] cs kwargs data w = Some (Inr (kwargs', data'), w') \<Longrightarrow>
   \<exists>ps. data' = fold apply_patch ps data \<and> list_all (allowed cs) ps"
proof (induction cs arbitrary: kwargs data w)
  case Nil
  then show ?case by (intro exI [of _ "[]"]) simp
next
  case (Cons kc cs)
  obtain cursor c where kc: "kc = (cursor, c)" by (cases kc)
  from Cons.prems obtain kwargs1 data1 w1 where
    st: "visit rc [] cursor c kwargs data w = Some (Inr (kwargs1, data1), w1)"
      "cursors_loop rc [] cs kwargs1 data1 w1 = Some (Inr (kwargs', data'), w')"
    by (auto simp: kc split: option.splits sum.splits prod.splits)
  from visit_patches [OF st(1)] obtain ps1 where
    ps1: "data1 = fold apply_patch ps1 data" "list_all (allowed [(cursor, c)]) ps1"
    by blast
  from Cons.IH [OF st(2)] obtain ps2 where
    ps2: "data' = fold apply_patch ps2 data1" "list_all (allowed cs) ps2"
    by blast
  have "list_all (allowed (kc # cs)) ps1" "list_all (allowed (kc # cs)) ps2"
    using ps1(2) ps2(2) allowed_mono [of "[(cursor, c)]" "kc # cs"] allowed_mono [of cs "kc # cs"]
    by (auto simp: list_all_iff kc)
  then show ?case
    using ps1(1) ps2(1) by (intro exI [of _ "ps1 @ ps2"]) simp
qed

text \<open>
  C10. A top-level call (\<open>prev_path\<close> empty) that returns \<open>r\<close> has changed the tree
  \<open>d\<close> decoded from the first reply only by a sequence of three kinds of steps: removing
  \<open>pageInfo\<close> from the connection of a top-level cursor, extending the \<open>nodes\<close> list of such a
  connection, and assigning \<open>nodes\<close> in the connection of a nested cursor inside an element of
  such a list. So whatever lies at a path that neither runs through nor leads to the
  \<open>pageInfo\<close> or the \<open>nodes\<close> of a top-level connection (every other key of the
  connection, every subtree off the cursor paths) is in \<open>r\<close> what it was in \<open>d\<close>.
\<close>

theorem graphql_frame:
  assumes "transport e query token accept max_retries kwargs w = (Inr d, w0)"
    and "graphql (Suc n) e query token accept max_retries (Some cs) [] kwargs w = Some (Inr r, w')"
  shows "(\<exists>ps. list_all (allowed cs) ps \<and> r = fold apply_patch ps d)
       \<and> (\<forall>q. outside cs q \<longrightarrow> descend r q = descend d q)"
proof -
  from assms obtain kwargs' where
    "cursors_loop (graphql n e query token accept max_retries) [] cs kwargs d w0
       = Some (Inr (kwargs', r), w')"
    by (auto split: option.splits sum.splits prod.splits)
  from cursors_loop_patches [OF this] obtain ps where
    ps: "r = fold apply_patch ps d" "list_all (allowed cs) ps"
    by blast
  have "descend r q = descend d q" if "outside cs q" for q
    unfolding ps(1)
    using ps(2) that by (intro fold_apply_patch_frame) (auto simp: list_all_iff outside_loc)
  then show ?thesis
    using ps by blast
qed

theorem graphql_frame_witness:
  "graphql 2 (env_of [ok (issues_doc (conn ''A'' True [item 1])),
                      ok (issues_doc (conn ''B'' False [item 2]))])
       ''query { a }'' (Some ''t'') [] 8 (Some [(''c'', PathList [''repository'', ''issues''])])
       [] [] []
     = Some (Inr (issues_doc (JObj [(''nodes'', JArr [item 1, item 2])])),
             [sent [], sent [(''c'', JStr ''A'')]])
   \<and> outside [(''c'', PathList [''repository'', ''issues''])] [Key ''repository'', Key ''name'']
   \<and> descend (issues_doc (JObj [(''nodes'', JArr [item 1, item 2])]))
        [Key ''repository'', Key ''name'']
      = descend (issues_doc (conn ''A'' True [item 1])) [Key ''repository'', Key ''name'']"
proof -
  define e where "e = env_of [ok (issues_doc (conn ''A'' True [item 1])),
                      ok (issues_doc (conn ''B'' False [item 2]))]"
  define cs where "cs = [(''c'', PathList [''repository'', ''issues''])]"
  have h1: "transport e ''query { a }'' (Some ''t'') [] 8 [] []
              = (Inr (issues_doc (conn ''A'' True [item 1])), [sent []])"
    unfolding e_def by code_simp
  have h2: "graphql (Suc 1) e ''query { a }'' (Some ''t'') [] 8 (Some cs) [] [] []
     = Some (Inr (issues_doc (JObj [(''nodes'', JArr [item 1, item 2])])),
             [sent [], sent [(''c'', JStr ''A'')]])"
    unfolding e_def cs_def by code_simp
  have h3: "outside cs [Key ''repository'', Key ''name'']"
    unfolding cs_def by code_simp
  from graphql_frame [OF h1 h2] h3
  have "descend (issues_doc (JObj [(''nodes'', JArr [item 1, item 2])]))
        [Key ''repository'', Key ''name'']
      = descend (issues_doc (conn ''A'' True [item 1])) [Key ''repository'', Key ''name'']"
    by blast
  then show ?thesis
    using h2 h3 by (simp add: e_def cs_def eval_nat_numeral)
qed

section \<open>A single page\<close>

lemma no_next_page_getitem: "no_next_page d \<Longrightarrow> getitem d s = Inr c \<Longrightarrow> no_next_page c"
  by (cases "(d, s)" rule: getitem.cases)
     (auto split: option.splits if_splits dest!: map_of_SomeD)

lemma no_next_page_descend: "no_next_page d \<Longrightarrow> descend d p = Inr c \<Longrightarrow> no_next_page c"
  by (induction p arbitrary: d) (auto split: sum.splits dest: no_next_page_getitem)

lemma no_next_page_falsy:
  "no_next_page d \<Longrightarrow> getitem d (Key ''hasNextPage'') = Inr h \<Longrightarrow> \<not> truthy h"
  by (cases d) (auto split: option.splits dest!: map_of_SomeD)

lemma set_update_subset: "set (AList.update k v al) \<subseteq> insert (k, v) (set al)"
  by (induction al) auto

lemma set_delete_subset: "set (AList.delete k al) \<subseteq> set al"
  by (induction al) auto

lemma falsy_descend: "\<not> truthy c \<Longrightarrow> descend c ss = Inr obj \<Longrightarrow> \<not> truthy obj"
  by (cases ss; cases c; cases "hd ss") (auto split: sum.splits)

lemma call_required_single:
  "no_next_page node_data \<Longrightarrow> \<forall>kc \<in> set nxt. next_of (snd kc) = None \<Longrightarrow>
   call_required node_data nxt acc = Inr b \<Longrightarrow> b = acc"
proof (induction nxt arbitrary: acc)
  case Nil
  then show ?case by simp
next
  case (Cons kc nxt)
  obtain k c where kc: "kc = (k, c)" by (cases kc)
  from Cons.prems(3) obtain page pinfo h where
    st: "descend node_data (map Key (path_of c)) = Inr page"
      "getitem page (Key ''pageInfo'') = Inr pinfo"
      "getitem pinfo (Key ''hasNextPage'') = Inr h"
      "call_required node_data nxt (if truthy h \<or> next_of c \<noteq> None then True else acc) = Inr b"
    by (auto simp: kc split: sum.splits)
  have "no_next_page pinfo"
    using Cons.prems(1) st(1,2) no_next_page_descend no_next_page_getitem by blast
  then have "\<not> truthy h"
    using st(3) by (rule no_next_page_falsy)
  moreover have "next_of c = None"
    using Cons.prems(2) by (simp add: kc)
  ultimately have "call_required node_data nxt acc = Inr b"
    using st(4) by simp
  then show ?case
    using Cons.IH Cons.prems(1,2) by simp
qed

lemma nodes_loop_single:
  assumes "no_next_page data" and "\<forall>kc \<in> set nxt. next_of (snd kc) = None"
  shows "\<exists>res. nodes_loop rc nxt prev_path cp kwargs is data w = Some (res, w)
           \<and> (\<forall>d'. res = Inr d' \<longrightarrow> d' = data)"
proof (induction "is")
  case Nil
  then show ?case by simp
next
  case (Cons i "is")
  define cpn where "cpn = (if prev_path = [] then cp else prev_path) @ [Key ''nodes'', Idx i]"
  show ?case
  proof (cases "descend data cpn")
    case (Inl x)
    then show ?thesis by (simp add: cpn_def)
  next
    case (Inr node_data)
    then have nnp: "no_next_page node_data"
      using assms(1) no_next_page_descend by blast
    show ?thesis
    proof (cases "call_required node_data nxt False")
      case (Inl x)
      then show ?thesis using Inr by (simp add: cpn_def)
    next
      case b: (Inr b)
      then have "b = False"
        using call_required_single [OF nnp assms(2)] by blast
      then show ?thesis
        using Inr b Cons.IH by (simp add: cpn_def)
    qed
  qed
qed

lemma put_no_next_page:
  "descend d p = Inr obj \<Longrightarrow> truthy obj \<Longrightarrow> no_next_page d \<Longrightarrow> no_next_page v \<Longrightarrow>
   no_next_page (put p v d)"
proof (induction p arbitrary: d)
  case Nil
  then show ?case by simp
next
  case (Cons s ss)
  from Cons.prems(1) obtain c where c: "getitem d s = Inr c" "descend c ss = Inr obj"
    by (auto split: sum.splits)
  have nc: "no_next_page c"
    using Cons.prems(3) c(1) by (rule no_next_page_getitem)
  have ih: "no_next_page (put ss v c)"
    using Cons.IH [OF c(2) Cons.prems(2) nc Cons.prems(4)] .
  have tc: "truthy c"
    using falsy_descend [OF _ c(2)] Cons.prems(2) by blast
  have pe: "put (s # ss) v d = setitem d s (put ss v c)"
    using c(1) by simp
  have "no_next_page (setitem d s (put ss v c))"
  proof (cases d)
    case (JObj kvs)
    then obtain k where k: "s = Key k" "map_of kvs k = Some c"
      using c(1) by (cases s) (auto split: option.splits)
    then have "(k, c) \<in> set kvs"
      by (simp add: map_of_SomeD)
    then have "k \<noteq> ''hasNextPage''"
      using Cons.prems(3) JObj tc by auto
    then show ?thesis
      using JObj k ih Cons.prems(3) set_update_subset [of k "put ss v c" kvs]
      by auto
  next
    case (JArr xs)
    then obtain i where i: "s = Idx i" "i < length xs"
      using c(1) by (cases s) (auto split: if_splits)
    then show ?thesis
      using JArr ih Cons.prems(3) set_update_subset_insert [of xs i "put ss v c"]
      by auto
  qed (use Cons.prems(3) in \<open>cases s; simp\<close>)+
  then show ?case
    by (simp only: pe)
qed

lemma descend_prefix_ok:
  "descend d (p @ q) = Inr x \<Longrightarrow> \<exists>y. descend d p = Inr y"
  by (auto simp: descend_append split: sum.splits)

lemma strip_monotone:
  assumes "descend (apply_patch (Strip p) d) q = Inr x"
  shows "\<exists>y. descend d q = Inr y"
proof (cases "descend d p")
  case (Inl a)
  then show ?thesis using assms by (simp add: apply_patch.simps)
next
  case (Inr obj)
  show ?thesis
  proof (cases "pop obj ''pageInfo''")
    case (Inl a)
    then show ?thesis using assms Inr by (simp add: apply_patch.simps)
  next
    case popped: (Inr po)
    then obtain kvs where obj: "obj = JObj kvs" "apply_patch (Strip p) d = put p (JObj (AList.delete ''pageInfo'' kvs)) d"
      using Inr by (cases obj) (auto simp: apply_patch.simps split: option.splits)
    show ?thesis
    proof (cases "comparable q (p @ [Key ''pageInfo''])")
      case False
      then show ?thesis
        using apply_patch_frame [of q "Strip p" d] assms by (metis loc.simps(1))
    next
      case True
      then consider "prefix (p @ [Key ''pageInfo'']) q" | "prefix q p"
        by (auto simp: comparable_def)
      then show ?thesis
      proof cases
        case 1
        then obtain rest where "q = p @ Key ''pageInfo'' # rest"
          by (auto simp: prefix_def)
        moreover have "descend (put p (JObj (AList.delete ''pageInfo'' kvs)) d) (p @ Key ''pageInfo'' # rest)
            = descend (JObj (AList.delete ''pageInfo'' kvs)) (Key ''pageInfo'' # rest)"
          using Inr obj(1) by (intro put_descend_same) auto
        ultimately show ?thesis
          using assms obj(2) by (simp add: delete_conv')
      next
        case 2
        then obtain rest where "p = q @ rest"
          by (auto simp: prefix_def)
        then show ?thesis
          using Inr descend_prefix_ok by blast
      qed
    qed
  qed
qed

lemma visit_single:
  assumes nnp: "no_next_page data"
    and fl: "case next_of c of None \<Rightarrow> True | Some nxt \<Rightarrow> \<forall>kc' \<in> set nxt. next_of (snd kc') = None"
  shows "\<exists>res. visit rc prev_path cursor c kwargs data w = Some (res, w)
           \<and> (\<forall>kw' d'. res = Inr (kw', d') \<longrightarrow>
                 kw' = kwargs
               \<and> d' = apply_patch (Strip (prev_path @ map Key (path_of c))) data
               \<and> no_next_page d'
               \<and> isl (descend d' (prev_path @ map Key (path_of c) @ [Key ''pageInfo''])))"
proof -
  define P where "P = prev_path @ map Key (path_of c)"
  show ?thesis
  proof (cases "descend data P")
    case (Inl x)
    then show ?thesis by (simp add: visit_def P_def)
  next
    case (Inr obj)
    show ?thesis
    proof (cases "pop obj ''pageInfo''")
      case (Inl x)
      then show ?thesis using Inr by (simp add: visit_def P_def)
    next
      case popped: (Inr po)
      obtain pinfo obj' where po: "po = (pinfo, obj')" by (cases po)
      from popped po obtain kvs where
        obj: "obj = JObj kvs" "map_of kvs ''pageInfo'' = Some pinfo"
          "obj' = JObj (AList.delete ''pageInfo'' kvs)"
        by (cases obj) (auto split: option.splits)
      define data1 where "data1 = put P obj' data"
      have strip: "data1 = apply_patch (Strip P) data"
        using Inr popped po by (simp add: data1_def apply_patch.simps)
      have nobj: "no_next_page obj"
        using nnp Inr by (rule no_next_page_descend)
      have npi: "no_next_page pinfo"
        using nobj obj(1,2) by (auto dest!: map_of_SomeD)
      have nobj': "no_next_page obj'"
        using nobj obj(1,3) set_delete_subset [of "''pageInfo''" kvs] by auto
      have "truthy obj"
        using obj(1,2) by auto
      then have n1: "no_next_page data1"
        unfolding data1_def using Inr nnp nobj' by (intro put_no_next_page)
      have "descend data1 (P @ [Key ''pageInfo'']) = descend obj' [Key ''pageInfo'']"
        unfolding data1_def using Inr obj(1) by (intro put_descend_same) auto
      then have gone: "isl (descend data1 (prev_path @ map Key (path_of c) @ [Key ''pageInfo'']))"
        by (simp add: obj(3) delete_conv' P_def)
      show ?thesis
      proof (cases "getitem pinfo (Key ''hasNextPage'')")
        case (Inl x)
        then show ?thesis using Inr popped po by (simp add: visit_def P_def)
      next
        case h: (Inr h)
        then have falsy: "\<not> truthy h"
          using npi no_next_page_falsy by blast
        show ?thesis
        proof (cases "next_of c")
          case None
          then show ?thesis
            using Inr popped po h falsy strip n1 gone
            by (simp add: visit_def P_def data1_def del: apply_patch.simps)
        next
          case (Some nxt)
          then have chl: "\<forall>kc' \<in> set nxt. next_of (snd kc') = None"
            using fl by simp
          show ?thesis
          proof (cases "getitem obj' (Key ''nodes'')")
            case (Inl x)
            then show ?thesis
              using Inr popped po h falsy Some by (simp add: visit_def P_def)
          next
            case ns: (Inr ns)
            show ?thesis
            proof (cases "len ns")
              case (Inl x)
              then show ?thesis
                using Inr popped po h falsy Some ns by (simp add: visit_def P_def)
            next
              case k: (Inr k)
              from nodes_loop_single [OF n1 chl, of rc prev_path P kwargs "[0..<k]" w]
              obtain res where
                res: "nodes_loop rc nxt prev_path P kwargs [0..<k] data1 w = Some (res, w)"
                  "\<forall>d'. res = Inr d' \<longrightarrow> d' = data1"
                by blast
              show ?thesis
                using Inr popped po h falsy Some ns k res strip n1 gone
                by (cases res) (simp_all add: visit_def P_def data1_def del: apply_patch.simps)
            qed
          qed
        qed
      qed
    qed
  qed
qed

lemma cursors_loop_single:
  assumes "flat cs" and "no_next_page data" and "\<forall>q \<in> set Q. isl (descend data q)"
  shows "\<exists>res. cursors_loop rc prev_path cs kwargs data w = Some (res, w)
           \<and> (\<forall>kw' d'. res = Inr (kw', d') \<longrightarrow>
                 (\<forall>kc \<in> set cs. isl (descend d' (prev_path @ map Key (path_of (snd kc))
                                                    @ [Key ''pageInfo''])))
               \<and> (\<forall>q \<in> set Q. isl (descend d' q)))"
  using assms
proof (induction cs arbitrary: data Q kwargs)
  case Nil
  then show ?case by simp
next
  case (Cons kc cs)
  obtain cursor c where kc: "kc = (cursor, c)" by (cases kc)
  have fl: "case next_of c of None \<Rightarrow> True | Some nxt \<Rightarrow> \<forall>kc' \<in> set nxt. next_of (snd kc') = None"
    and fl': "flat cs"
    using Cons.prems(1) by (simp_all add: flat_def kc)
  from visit_single [OF Cons.prems(2) fl, of rc prev_path cursor kwargs w]
  obtain res1 where
    v: "visit rc prev_path cursor c kwargs data w = Some (res1, w)"
      "\<forall>kw' d'. res1 = Inr (kw', d') \<longrightarrow>
                 kw' = kwargs
               \<and> d' = apply_patch (Strip (prev_path @ map Key (path_of c))) data
               \<and> no_next_page d'
               \<and> isl (descend d' (prev_path @ map Key (path_of c) @ [Key ''pageInfo'']))"
    by blast
  show ?case
  proof (cases res1)
    case (Inl x)
    then show ?thesis using v(1) by (simp add: kc)
  next
    case (Inr kd)
    obtain kw1 d1 where kd: "kd = (kw1, d1)" by (cases kd)
    define L where "L = prev_path @ map Key (path_of c) @ [Key ''pageInfo'']"
    have d1: "d1 = apply_patch (Strip (prev_path @ map Key (path_of c))) data"
      "no_next_page d1" "isl (descend d1 L)"
      using v(2) Inr kd unfolding L_def by blast+
    have keep: "\<forall>q \<in> set (L # Q). isl (descend d1 q)"
    proof
      fix q assume q: "q \<in> set (L # Q)"
      show "isl (descend d1 q)"
      proof (cases "q = L")
        case True
        then show ?thesis using d1(3) by simp
      next
        case False
        then have "isl (descend data q)"
          using q Cons.prems(3) by simp
        then show ?thesis
          using strip_monotone [of "prev_path @ map Key (path_of c)" data q] d1(1)
          by (cases "descend d1 q") auto
      qed
    qed
    from Cons.IH [OF fl' d1(2) keep, of kw1]
    obtain res where
      r: "cursors_loop rc prev_path cs kw1 d1 w = Some (res, w)"
        "\<forall>kw' d'. res = Inr (kw', d') \<longrightarrow>
                 (\<forall>kc \<in> set cs. isl (descend d' (prev_path @ map Key (path_of (snd kc))
                                                    @ [Key ''pageInfo''])))
               \<and> (\<forall>q \<in> set (L # Q). isl (descend d' q))"
      by blast
    show ?thesis
      using v(1) Inr kd r by (auto simp: kc L_def)
  qed
qed

text \<open>
  C4, as amended. The token is there, the first reply is a 200 without \<open>errors\<close>, no
  \<open>hasNextPage\<close> anywhere in its \<open>data\<close> is true, and no nested cursor of the tree has
  nested cursors of its own. Then the call sends exactly one request, whether it returns
  or raises; and when it returns, looking up \<open>pageInfo\<close> at the connection of any top-level
  cursor fails.
\<close>

theorem single_page_one_request:
  assumes "t \<noteq> []"
    and "server e w (build_request e query t accept kwargs) = rep"
    and "status_code rep = 200"
    and "body rep = Some (JObj kvs)"
    and "map_of kvs ''errors'' = None"
    and "map_of kvs ''data'' = Some d"
    and "no_next_page d"
    and "flat cs"
  shows "\<exists>res. graphql (Suc n) e query (Some t) accept max_retries (Some cs) prev_path kwargs w
                 = Some (res, w @ [Post (build_request e query t accept kwargs)])
           \<and> (\<forall>r. res = Inr r \<longrightarrow>
                 (\<forall>kc \<in> set cs. isl (descend r (prev_path @ map Key (path_of (snd kc))
                                                   @ [Key ''pageInfo'']))))"
proof -
  define w0 where "w0 = w @ [Post (build_request e query t accept kwargs)]"
  have "''errors'' \<notin> fst ` set kvs"
    using assms(5) by (simp add: map_of_eq_None_iff)
  then have tr: "transport e query (Some t) accept max_retries kwargs w = (Inr d, w0)"
    using transport_200 [OF assms(1-3), of max_retries] assms(4,6) by (simp add: w0_def)
  from cursors_loop_single [OF assms(8,7), of "[]" "graphql n e query (Some t) accept max_retries"
      prev_path kwargs w0]
  obtain res where
    r: "cursors_loop (graphql n e query (Some t) accept max_retries) prev_path cs kwargs d w0
          = Some (res, w0)"
      "\<forall>kw' d'. res = Inr (kw', d') \<longrightarrow>
                 (\<forall>kc \<in> set cs. isl (descend d' (prev_path @ map Key (path_of (snd kc))
                                                    @ [Key ''pageInfo''])))"
    by auto
  show ?thesis
  proof (cases res)
    case (Inl x)
    then show ?thesis
      using tr r(1) by (intro exI [of _ "Inl x"]) (simp add: w0_def)
  next
    case (Inr kd)
    then show ?thesis
      using tr r by (intro exI [of _ "Inr (snd kd)"]) (auto simp: w0_def split: prod.splits)
  qed
qed

theorem single_page_one_request_witness:
  "graphql 1 (env_of [ok (prs_doc (conn ''P'' False [pr (conn ''T'' False [item 1])]))])
       ''query { a }'' (Some ''t'') [] 8 (Some nested_cursors) [] [] []
     = Some (Inr (prs_doc (JObj [(''nodes'', JArr [pr (conn ''T'' False [item 1])])])), [sent []])
   \<and> isl (descend (prs_doc (JObj [(''nodes'', JArr [pr (conn ''T'' False [item 1])])]))
            [Key ''repository'', Key ''pullRequests'', Key ''pageInfo''])"
proof -
  define D where "D = prs_doc (conn ''P'' False [pr (conn ''T'' False [item 1])])"
  define e where "e = env_of [ok D]"
  define R where "R = prs_doc (JObj [(''nodes'', JArr [pr (conn ''T'' False [item 1])])])"
  have h1: "''t'' \<noteq> []" by simp
  have h2: "server e [] (build_request e ''query { a }'' ''t'' [] []) = ok D"
    by (simp add: e_def env_of_def scripted_def)
  have h3: "status_code (ok D) = 200" and h4: "body (ok D) = Some (JObj [(''data'', D)])"
    by (simp_all add: ok_def)
  have h5: "map_of [(''data'', D)] ''errors'' = None" and h6: "map_of [(''data'', D)] ''data'' = Some D"
    by simp_all
  have h7: "no_next_page D"
    unfolding D_def by code_simp
  have h8: "flat nested_cursors"
    by code_simp
  have run: "graphql (Suc 0) e ''query { a }'' (Some ''t'') [] 8 (Some nested_cursors) [] [] []
     = Some (Inr R, [sent []])"
    unfolding e_def D_def R_def by code_simp
  from single_page_one_request [OF h1 h2 h3 h4 h5 h6 h7 h8, of 0 8 "[]"] run
  have "\<forall>kc \<in> set nested_cursors. isl (descend R ([] @ map Key (path_of (snd kc)) @ [Key ''pageInfo'']))"
    by auto
  then have "isl (descend R [Key ''repository'', Key ''pullRequests'', Key ''pageInfo''])"
    by (simp add: nested_cursors_def)
  then show ?thesis
    using run by (simp add: e_def D_def R_def)
qed

text \<open>
  C4 as stated fails on a tree whose nested cursor has a nested cursor of its own: the
  check before the call for an element asks for the call whenever a nested cursor has a
  \<open>next\<close>, so a second request is sent although every \<open>hasNextPage\<close> is false.
\<close>

theorem grandchild_second_request:
  "graphql 2 (env_of [ok (prs_doc (conn ''P'' False [pr (conn ''T'' False [])])),
                      ok (prs_doc (conn ''P'' False [pr (conn ''T'' False [])]))])
       ''query { a }'' (Some ''t'') [] 8 (Some deep_cursors) [] [] []
     = Some (Inr (prs_doc (JObj [(''nodes'', JArr [pr (conn ''T'' False [])])])),
             [sent [], sent []])
   \<and> no_next_page (prs_doc (conn ''P'' False [pr (conn ''T'' False [])]))"
  by code_simp

section \<open>Nested connections\<close>

text \<open>
  C2. The top comment of the source says that \<open>pageInfo\<close> is removed from the result. For
  the connection of a nested cursor only \<open>nodes\<close> is assigned: after one pull request whose
  timeline has two pages, the timeline in the returned tree holds both pages and still
  its \<open>pageInfo\<close>, with \<open>hasNextPage\<close> true.
\<close>

theorem nested_pageInfo_retained:
  "graphql 3 (env_of [ok (prs_doc (conn ''P'' False [pr (conn ''T1'' True [item 1])])),
                      ok (prs_doc (conn ''P'' False [pr (conn ''T1'' True [item 1])])),
                      ok (prs_doc (conn ''P'' False [pr (conn ''T2'' False [item 2])]))])
       ''query { a }'' (Some ''t'') [] 8 (Some nested_cursors) [] [] []
     = Some (Inr (prs_doc (JObj [(''nodes'', JArr [pr (conn ''T1'' True [item 1, item 2])])])),
             [sent [], sent [], sent [(''cursor3'', JStr ''T1'')]])
   \<and> descend (prs_doc (JObj [(''nodes'', JArr [pr (conn ''T1'' True [item 1, item 2])])]))
        [Key ''repository'', Key ''pullRequests'', Key ''nodes'', Idx 0, Key ''timelineItems'',
         Key ''pageInfo'']
      = Inr (JObj [(''endCursor'', JStr ''T1''), (''hasNextPage'', JBool True)])"
  by code_simp

text \<open>
  C3. The elements are only depaginated by the call that sees \<open>hasNextPage\<close> false, and
  that call holds the last page alone: of two pages of pull requests, each with one pull
  request whose timeline has a second page, the pull request of the second page gets its
  timeline merged, the one of the first page keeps its first page of the timeline.
\<close>

theorem earlier_pages_not_depaginated:
  "graphql 4 (env_of [ok (prs_doc (conn ''P1'' True [pr (conn ''T1'' True [item 1])])),
                      ok (prs_doc (conn ''P2'' False [pr (conn ''U1'' True [item 3])])),
                      ok (prs_doc (conn ''P2'' False [pr (conn ''U1'' True [item 3])])),
                      ok (prs_doc (conn ''P2'' False [pr (conn ''U2'' False [item 4])]))])
       ''query { a }'' (Some ''t'') [] 8 (Some nested_cursors) [] [] []
     = Some (Inr (prs_doc (JObj [(''nodes'',
                JArr [pr (conn ''T1'' True [item 1]), pr (conn ''U1'' True [item 3, item 4])])])),
             [sent [],
              sent [(''cursor2'', JStr ''P1'')],
              sent [(''cursor2'', JStr ''P1'')],
              sent [(''cursor2'', JStr ''P1''), (''cursor3'', JStr ''U1'')]])"
  by code_simp

section \<open>Merged pages\<close>

lemma cursors_loop_frame:
  assumes "cursors_loop rc [] cs kwargs data w = Some (Inr (kwargs', data'), w')"
    and "outside cs q"
  shows "descend data' q = descend data q"
proof -
  from cursors_loop_patches [OF assms(1)] obtain ps where
    ps: "data' = fold apply_patch ps data" "list_all (allowed cs) ps"
    by blast
  show ?thesis
    unfolding ps(1)
    using ps(2) assms(2) by (intro fold_apply_patch_frame) (auto simp: list_all_iff outside_loc)
qed

lemma outside_append: "outside (cs1 @ cs2) q \<longleftrightarrow> outside cs1 q \<and> outside cs2 q"
  by (auto simp: outside_def)

lemma visit_Inr_start:
  "visit rc prev_path cursor c kwargs data w = Some (Inr (kwargs', data'), w') \<Longrightarrow>
   \<exists>obj pinfo obj' h. descend data (prev_path @ map Key (path_of c)) = Inr obj
      \<and> pop obj ''pageInfo'' = Inr (pinfo, obj')
      \<and> getitem pinfo (Key ''hasNextPage'') = Inr h"
  by (auto simp: visit_def Let_def split: sum.splits prod.splits)

lemma visit_Inr_more:
  "visit rc prev_path cursor c kwargs data w = Some (Inr (kwargs', data'), w') \<Longrightarrow>
   descend data (prev_path @ map Key (path_of c)) = Inr obj \<Longrightarrow>
   pop obj ''pageInfo'' = Inr (pinfo, obj') \<Longrightarrow>
   getitem pinfo (Key ''hasNextPage'') = Inr h \<Longrightarrow> truthy h \<Longrightarrow>
   \<exists>ec nx. getitem pinfo (Key ''endCursor'') = Inr ec
      \<and> rc (Some [(cursor, normalise c)]) prev_path (AList.update cursor ec kwargs) w
          = Some (Inr nx, w')
      \<and> extend_nodes (put (prev_path @ map Key (path_of c)) obj' data) nx
            (prev_path @ map Key (path_of c)) = Inr data'
      \<and> kwargs' = AList.update cursor ec kwargs"
  by (auto simp: visit_def Let_def split: sum.splits prod.splits option.splits
           dest: recurse_Inr)

lemma visit_Inr_last:
  "visit rc prev_path cursor c kwargs data w = Some (Inr (kwargs', data'), w') \<Longrightarrow>
   descend data (prev_path @ map Key (path_of c)) = Inr obj \<Longrightarrow>
   pop obj ''pageInfo'' = Inr (pinfo, obj') \<Longrightarrow>
   getitem pinfo (Key ''hasNextPage'') = Inr h \<Longrightarrow> \<not> truthy h \<Longrightarrow> next_of c = None \<Longrightarrow>
   data' = put (prev_path @ map Key (path_of c)) obj' data \<and> w' = w \<and> kwargs' = kwargs"
  by (auto simp: visit_def Let_def split: sum.splits prod.splits option.splits)

lemma graphql_single_cursor:
  "graphql n e query token accept max_retries (Some [(cursor, c)]) prev_path kwargs w
     = Some (Inr nx, w') \<Longrightarrow>
   \<exists>m datan wn kwx. n = Suc m
      \<and> transport e query token accept max_retries kwargs w = (Inr datan, wn)
      \<and> visit (graphql m e query token accept max_retries) prev_path cursor c kwargs datan wn
          = Some (Inr (kwx, nx), w')"
  by (cases n) (auto split: sum.splits prod.splits option.splits)

lemma rest_pages_last:
  "getitem pinfo (Key ''hasNextPage'') = Inr h \<Longrightarrow> \<not> truthy h \<Longrightarrow>
   rest_pages n e query token accept max_retries cursor p pinfo kwargs w = Some ([], w)"
  by (subst rest_pages.simps) simp

lemma rest_pages_more:
  "getitem pinfo (Key ''hasNextPage'') = Inr h \<Longrightarrow> truthy h \<Longrightarrow>
   getitem pinfo (Key ''endCursor'') = Inr ec \<Longrightarrow>
   transport e query token accept max_retries (AList.update cursor ec kwargs) w = (Inr data, w1) \<Longrightarrow>
   rest_pages (Suc m) e query token accept max_retries cursor p pinfo kwargs w = Some (xss, w2) \<Longrightarrow>
   \<exists>ys pinfo' yss. descend data (p @ [Key ''nodes'']) = Inr (JArr ys)
      \<and> descend data (p @ [Key ''pageInfo'']) = Inr pinfo'
      \<and> rest_pages m e query token accept max_retries cursor p pinfo'
            (AList.update cursor ec kwargs) w1 = Some (yss, w2)
      \<and> xss = ys # yss"
  by (subst (asm) rest_pages.simps)
     (auto split: sum.splits json.splits option.splits prod.splits)

lemma put_append: "descend d p = Inr x \<Longrightarrow> put (p @ q) v d = put p (put q v x) d"
  by (induction p arbitrary: d) (auto split: sum.splits)

lemma replace_in_element:
  assumes "descend d A = Inr (JArr xs)"
  shows "descend (apply_patch (Replace (A @ Idx i # q) v) d) A
         = Inr (JArr (if i < length xs then xs[i := apply_patch (Replace q v) (xs ! i)] else xs))"
proof (cases "i < length xs")
  case False
  then have "descend d (A @ Idx i # q) = Inl IndexError"
    using assms by (simp add: descend_append)
  then show ?thesis
    using assms False by (simp add: apply_patch.simps)
next
  case True
  then have el: "descend d (A @ Idx i # q) = descend (xs ! i) q"
    using assms by (simp add: descend_append)
  show ?thesis
  proof (cases "descend (xs ! i) q")
    case (Inl x)
    then show ?thesis
      using assms True el by (simp add: apply_patch.simps)
  next
    case (Inr obj)
    show ?thesis
    proof (cases "assign obj ''nodes'' v")
      case (Inl x)
      then show ?thesis
        using assms True el Inr by (simp add: apply_patch.simps)
    next
      case obj': (Inr obj')
      have "apply_patch (Replace (A @ Idx i # q) v) d = put (A @ Idx i # q) obj' d"
        using el Inr obj' by (simp add: apply_patch.simps)
      also have "\<dots> = put A (put (Idx i # q) obj' (JArr xs)) d"
        using assms by (rule put_append)
      also have "put (Idx i # q) obj' (JArr xs) = JArr (xs[i := put q obj' (xs ! i)])"
        using True by simp
      finally have "apply_patch (Replace (A @ Idx i # q) v) d
                    = put A (JArr (xs[i := put q obj' (xs ! i)])) d" .
      moreover have "descend (put A (JArr (xs[i := put q obj' (xs ! i)])) d) (A @ [])
                    = descend (JArr (xs[i := put q obj' (xs ! i)])) []"
        using assms by (intro put_descend_same) auto
      moreover have "apply_patch (Replace q v) (xs ! i) = put q obj' (xs ! i)"
        using Inr obj' by (simp add: apply_patch.simps)
      ultimately show ?thesis
        using True by simp
    qed
  qed
qed

lemma replaces_in_elements:
  assumes "\<forall>p \<in> set ps. \<exists>v i kc. p = Replace (A @ Idx i # map Key (path_of (snd kc))) v
                                  \<and> kc \<in> set nxt"
    and "descend d A = Inr (JArr xs)"
    and "list_all2 (welded nxt) xs0 xs"
  shows "\<exists>zs. descend (fold apply_patch ps d) A = Inr (JArr zs) \<and> list_all2 (welded nxt) xs0 zs"
  using assms
proof (induction ps arbitrary: d xs)
  case Nil
  then show ?case by auto
next
  case (Cons p ps)
  from Cons.prems(1) obtain v i kc where
    p: "p = Replace (A @ Idx i # map Key (path_of (snd kc))) v" "kc \<in> set nxt"
    by auto
  define xs' where
    "xs' = (if i < length xs
            then xs[i := apply_patch (Replace (map Key (path_of (snd kc))) v) (xs ! i)] else xs)"
  have d': "descend (apply_patch p d) A = Inr (JArr xs')"
    unfolding p(1) xs'_def using Cons.prems(2) by (rule replace_in_element)
  have "list_all2 (welded nxt) xs0 xs'"
  proof (cases "i < length xs")
    case False
    then show ?thesis using Cons.prems(3) by (simp add: xs'_def)
  next
    case True
    then have "welded nxt (xs0 ! i) (xs ! i)"
      using Cons.prems(3) by (simp add: list_all2_nthD2)
    then have "welded nxt (xs0 ! i)
                 (apply_patch (Replace (map Key (path_of (snd kc))) v) (xs ! i))"
      using p(2) by (rule welded.assigned)
    then have "list_all2 (welded nxt) (xs0[i := xs0 ! i])
                 (xs[i := apply_patch (Replace (map Key (path_of (snd kc))) v) (xs ! i)])"
      using Cons.prems(3) by (intro list_all2_update_cong)
    then show ?thesis
      using True by (simp add: xs'_def)
  qed
  from Cons.IH [OF _ d' this] Cons.prems(1) show ?case
    by simp
qed

lemma welded_none: "welded [] x y \<Longrightarrow> y = x"
  by (induction rule: welded.induct) auto

lemma list_all2_welded_none: "list_all2 (welded []) xs ys \<Longrightarrow> ys = xs"
  by (induction rule: list_all2_induct) (auto dest: welded_none)

lemma list_all2_welded_same: "list_all2 (welded nxt) xs xs"
  by (simp add: list_all2_same welded.same)

lemma visit_Inr_loop:
  "visit rc prev_path cursor c kwargs data w = Some (Inr (kwargs', data'), w') \<Longrightarrow>
   descend data (prev_path @ map Key (path_of c)) = Inr obj \<Longrightarrow>
   pop obj ''pageInfo'' = Inr (pinfo, obj') \<Longrightarrow>
   getitem pinfo (Key ''hasNextPage'') = Inr h \<Longrightarrow> \<not> truthy h \<Longrightarrow> next_of c = Some nxt \<Longrightarrow>
   \<exists>ns k. getitem obj' (Key ''nodes'') = Inr ns \<and> len ns = Inr k
      \<and> nodes_loop rc nxt prev_path (prev_path @ map Key (path_of c)) kwargs [0..<k]
            (put (prev_path @ map Key (path_of c)) obj' data) w = Some (Inr data', w')
      \<and> kwargs' = kwargs"
  by (auto simp: visit_def Let_def split: sum.splits prod.splits option.splits)

lemma visit_last_page:
  assumes "visit rc [] cursor c kwargs data w = Some (Inr (kwargs', data'), w')"
    and "descend data (map Key (path_of c)) = Inr obj"
    and "pop obj ''pageInfo'' = Inr (pinfo, obj')"
    and "getitem pinfo (Key ''hasNextPage'') = Inr h" and "\<not> truthy h"
    and "descend (put (map Key (path_of c)) obj' data) (map Key (path_of c) @ [Key ''nodes''])
           = Inr (JArr xs)"
  shows "\<exists>zs. descend data' (map Key (path_of c) @ [Key ''nodes'']) = Inr (JArr zs)
            \<and> list_all2 (welded (nested_of c)) xs zs"
proof (cases "next_of c")
  case None
  have "data' = put (map Key (path_of c)) obj' data"
    using visit_Inr_last [OF assms(1) _ assms(3-5) None] assms(2) by simp
  then show ?thesis
    using assms(6) list_all2_welded_same by auto
next
  case (Some nxt)
  from visit_Inr_loop [OF assms(1) _ assms(3-5) Some] assms(2) obtain k where
    "nodes_loop rc nxt [] (map Key (path_of c)) kwargs [0..<k]
       (put (map Key (path_of c)) obj' data) w = Some (Inr data', w')"
    by auto
  from nodes_loop_patches [OF this] obtain ps where
    ps: "data' = fold apply_patch ps (put (map Key (path_of c)) obj' data)"
      "\<forall>p \<in> set ps. \<exists>v i kc.
          p = Replace ((map Key (path_of c) @ [Key ''nodes'']) @ Idx i
                         # map Key (path_of (snd kc))) v
          \<and> kc \<in> set nxt"
    by auto
  from replaces_in_elements [OF ps(2) assms(6) list_all2_welded_same] show ?thesis
    by (simp add: ps(1) nested_of_def Some)
qed

lemma concat_butlast_last: "L \<noteq> [] \<Longrightarrow> concat L = concat (butlast L) @ last L"
  by (induction L) auto

lemma nested_of_normalise [simp]: "nested_of (normalise c) = nested_of c"
  by (simp add: nested_of_def)

lemma visit_pages:
  assumes "visit (graphql n e query token accept max_retries) [] cursor c kwargs data w
           = Some (Inr (kwargs', data'), w')"
    and "descend data (map Key (path_of c) @ [Key ''nodes'']) = Inr (JArr xs)"
    and "descend data (map Key (path_of c) @ [Key ''pageInfo'']) = Inr pinfo"
    and "rest_pages n e query token accept max_retries cursor (map Key (path_of c)) pinfo kwargs w
           = Some (xss, w2)"
  shows "\<exists>zs. descend data' (map Key (path_of c) @ [Key ''nodes''])
                = Inr (JArr (concat (butlast (xs # xss)) @ zs))
            \<and> list_all2 (welded (nested_of c)) (last (xs # xss)) zs"
  using assms
proof (induction n arbitrary: c kwargs data w kwargs' data' w' xs pinfo xss w2)
  case 0
  define P where "P = map Key (path_of c)"
  from visit_Inr_start [OF "0.prems"(1)] obtain obj pinfo0 obj' h where
    st: "descend data ([] @ P) = Inr obj" "pop obj ''pageInfo'' = Inr (pinfo0, obj')"
      "getitem pinfo0 (Key ''hasNextPage'') = Inr h"
    unfolding P_def by blast
  from st(2) obtain kvs where
    obj: "obj = JObj kvs" "map_of kvs ''pageInfo'' = Some pinfo0"
      "obj' = JObj (AList.delete ''pageInfo'' kvs)"
    by (cases obj) (auto split: option.splits)
  have pi: "pinfo0 = pinfo"
    using "0.prems"(3) st(1) obj(1,2) by (simp add: descend_append P_def)
  have falsy: "\<not> truthy h"
    using visit_Inr_more [OF "0.prems"(1) st [unfolded P_def]] by auto
  have "xss = []"
    using "0.prems"(4) rest_pages_last [OF st(3) falsy] pi by simp
  moreover have "descend (put P obj' data) (P @ [Key ''nodes'']) = descend obj' [Key ''nodes'']"
    using st(1) obj(1) by (intro put_descend_same) auto
  moreover have "descend obj' [Key ''nodes''] = Inr (JArr xs)"
    using "0.prems"(2) st(1) obj(1,3) by (simp add: descend_append P_def)
  ultimately show ?case
    using visit_last_page [OF "0.prems"(1) _ st(2,3) falsy, of xs] st(1)
    by (simp add: P_def)
next
  case (Suc m)
  define P where "P = map Key (path_of c)"
  from visit_Inr_start [OF Suc.prems(1)] obtain obj pinfo0 obj' h where
    st: "descend data ([] @ P) = Inr obj" "pop obj ''pageInfo'' = Inr (pinfo0, obj')"
      "getitem pinfo0 (Key ''hasNextPage'') = Inr h"
    unfolding P_def by blast
  from st(2) obtain kvs where
    obj: "obj = JObj kvs" "map_of kvs ''pageInfo'' = Some pinfo0"
      "obj' = JObj (AList.delete ''pageInfo'' kvs)"
    by (cases obj) (auto split: option.splits)
  have pi: "pinfo0 = pinfo"
    using Suc.prems(3) st(1) obj(1,2) by (simp add: descend_append P_def)
  define data1 where "data1 = put P obj' data"
  have "descend data1 (P @ [Key ''nodes'']) = descend obj' [Key ''nodes'']"
    unfolding data1_def using st(1) obj(1) by (intro put_descend_same) auto
  moreover have "descend obj' [Key ''nodes''] = Inr (JArr xs)"
    using Suc.prems(2) st(1) obj(1,3) by (simp add: descend_append P_def)
  ultimately have first: "descend data1 (P @ [Key ''nodes'']) = Inr (JArr xs)"
    by simp
  show ?case
  proof (cases "truthy h")
    case False
    have "xss = []"
      using Suc.prems(4) rest_pages_last [OF st(3) False] pi by simp
    then show ?thesis
      using visit_last_page [OF Suc.prems(1) _ st(2,3) False, of xs] st(1) first
      by (simp add: P_def data1_def)
  next
    case True
    from visit_Inr_more [OF Suc.prems(1) st [unfolded P_def] True] obtain ec nx where
      v: "getitem pinfo0 (Key ''endCursor'') = Inr ec"
        "graphql (Suc m) e query token accept max_retries (Some [(cursor, normalise c)]) []
           (AList.update cursor ec kwargs) w = Some (Inr nx, w')"
        "extend_nodes data1 nx P = Inr data'"
      unfolding data1_def P_def by auto
    define kw1 where "kw1 = AList.update cursor ec kwargs"
    from graphql_single_cursor [OF v(2)] obtain datan wn kwx where
      rec: "transport e query token accept max_retries kw1 w = (Inr datan, wn)"
        "visit (graphql m e query token accept max_retries) [] cursor (normalise c) kw1 datan wn
           = Some (Inr (kwx, nx), w')"
      unfolding kw1_def by auto
    from rest_pages_more [OF st(3) True v(1) rec(1) [unfolded kw1_def]] Suc.prems(4)
    obtain ys pinfo' yss where
      rp: "descend datan (P @ [Key ''nodes'']) = Inr (JArr ys)"
        "descend datan (P @ [Key ''pageInfo'']) = Inr pinfo'"
        "rest_pages m e query token accept max_retries cursor P pinfo' kw1 wn = Some (yss, w2)"
        "xss = ys # yss"
      unfolding kw1_def P_def pi by blast
    from Suc.IH [of "normalise c" kw1 datan wn kwx nx w' ys pinfo' yss w2] rec(2) rp(1-3)
    obtain zs where
      ih: "descend nx (P @ [Key ''nodes'']) = Inr (JArr (concat (butlast (ys # yss)) @ zs))"
        "list_all2 (welded (nested_of c)) (last (ys # yss)) zs"
      by (auto simp: P_def)
    from v(3) first ih(1)
    have "data' = put (P @ [Key ''nodes''])
                    (JArr (xs @ concat (butlast (ys # yss)) @ zs)) data1"
      by (auto simp: extend_nodes_def descend_append split: sum.splits json.splits)
    moreover have "descend (put (P @ [Key ''nodes''])
                              (JArr (xs @ concat (butlast (ys # yss)) @ zs)) data1)
                      ((P @ [Key ''nodes'']) @ [])
                   = descend (JArr (xs @ concat (butlast (ys # yss)) @ zs)) []"
      using first by (intro put_descend_same) auto
    ultimately have "descend data' (P @ [Key ''nodes''])
                       = Inr (JArr (concat (butlast (xs # xss)) @ zs))"
      using rp(4) by simp
    then show ?thesis
      using ih(2) rp(4) by (auto simp: P_def)
  qed
qed

text \<open>
  C1, as amended. A top-level call, at a cursor of the tree whose connection's \<open>pageInfo\<close>
  and \<open>nodes\<close> are comparable with no \<open>pageInfo\<close> and no \<open>nodes\<close> of another top-level
  cursor; the cursors before it have been visited and left the variables \<open>kwargs1\<close> and
  the world \<open>w1\<close>. The first reply holds the list \<open>xs\<close> as the connection's \<open>nodes\<close> and
  the following pages hold the lists \<open>xss\<close>. Then the connection's \<open>nodes\<close> in the
  returned tree is the lists of all pages but the last, in order, followed by a list
  \<open>zs\<close> that is the last page element by element, up to assignments to the \<open>nodes\<close> of
  the cursor's nested connections inside an element. So the returned list is, element by
  element and up to these assignments, \<open>xs\<close> followed by the lists of \<open>xss\<close> in order; and
  it is equal to that when the cursor has no nested cursors.
\<close>

theorem nodes_are_concatenated_pages:
  assumes "transport e query token accept max_retries kwargs w = (Inr d, w0)"
    and "cursors_loop (graphql n e query token accept max_retries) [] cs1 kwargs d w0
           = Some (Inr (kwargs1, d1), w1)"
    and "graphql (Suc n) e query token accept max_retries (Some (cs1 @ (cursor, c) # cs2)) []
           kwargs w = Some (Inr r, w')"
    and "outside (cs1 @ cs2) (map Key (path_of c) @ [Key ''pageInfo''])"
    and "outside (cs1 @ cs2) (map Key (path_of c) @ [Key ''nodes''])"
    and "descend d (map Key (path_of c) @ [Key ''nodes'']) = Inr (JArr xs)"
    and "descend d (map Key (path_of c) @ [Key ''pageInfo'']) = Inr pinfo"
    and "rest_pages n e query token accept max_retries cursor (map Key (path_of c)) pinfo
           kwargs1 w1 = Some (xss, w2)"
  shows "\<exists>zs. descend r (map Key (path_of c) @ [Key ''nodes''])
                = Inr (JArr (concat (butlast (xs # xss)) @ zs))
            \<and> list_all2 (welded (nested_of c)) (last (xs # xss)) zs
            \<and> list_all2 (welded (nested_of c)) (concat (xs # xss))
                (concat (butlast (xs # xss)) @ zs)
            \<and> (next_of c = None \<longrightarrow> concat (butlast (xs # xss)) @ zs = concat (xs # xss))"
proof -
  define P where "P = map Key (path_of c)"
  define rc where "rc = graphql n e query token accept max_retries"
  from assms(3) assms(1) obtain kwf where
    "cursors_loop rc [] (cs1 @ (cursor, c) # cs2) kwargs d w0 = Some (Inr (kwf, r), w')"
    by (auto simp: rc_def split: option.splits sum.splits prod.splits)
  then have "cursors_loop rc [] ((cursor, c) # cs2) kwargs1 d1 w1 = Some (Inr (kwf, r), w')"
    using assms(2) by (simp add: cursors_loop_append rc_def)
  then obtain kw2 d2 w2' where
    v: "visit rc [] cursor c kwargs1 d1 w1 = Some (Inr (kw2, d2), w2')"
      "cursors_loop rc [] cs2 kw2 d2 w2' = Some (Inr (kwf, r), w')"
    by (auto split: option.splits sum.splits prod.splits)
  have o1: "outside cs1 (P @ [Key ''pageInfo''])" "outside cs1 (P @ [Key ''nodes''])"
    and o2: "outside cs2 (P @ [Key ''nodes''])"
    using assms(4,5) by (simp_all add: outside_append P_def)
  have "descend d1 (P @ [Key ''nodes'']) = Inr (JArr xs)"
    "descend d1 (P @ [Key ''pageInfo'']) = Inr pinfo"
    using cursors_loop_frame [OF assms(2)] o1 assms(6,7) by (simp_all add: P_def)
  from visit_pages [OF v(1) [unfolded rc_def] this [unfolded P_def] assms(8)]
  obtain zs where
    zs: "descend d2 (P @ [Key ''nodes'']) = Inr (JArr (concat (butlast (xs # xss)) @ zs))"
      "list_all2 (welded (nested_of c)) (last (xs # xss)) zs"
    by (auto simp: P_def)
  have pages: "concat (xs # xss) = concat (butlast (xs # xss)) @ last (xs # xss)"
    by (rule concat_butlast_last) simp
  have whole: "list_all2 (welded (nested_of c)) (concat (xs # xss))
                 (concat (butlast (xs # xss)) @ zs)"
    unfolding pages using zs(2) by (intro list_all2_appendI list_all2_welded_same)
  have exact: "concat (butlast (xs # xss)) @ zs = concat (xs # xss)" if "next_of c = None"
    using zs(2) that list_all2_welded_none [of "last (xs # xss)" zs]
    by (simp only: pages) (simp add: nested_of_def)
  have "descend r (P @ [Key ''nodes'']) = Inr (JArr (concat (butlast (xs # xss)) @ zs))"
    using cursors_loop_frame [OF v(2) o2] zs(1) by simp
  then show ?thesis
    using zs(2) whole exact unfolding P_def by (auto intro!: exI [of _ zs])
qed

theorem nodes_are_concatenated_pages_witness:
  "graphql 4 (env_of [ok (prs_doc (conn ''P1'' True [pr (conn ''T1'' True [item 1])])),
                      ok (prs_doc (conn ''P2'' False [pr (conn ''U1'' True [item 3])])),
                      ok (prs_doc (conn ''P2'' False [pr (conn ''U1'' True [item 3])])),
                      ok (prs_doc (conn ''P2'' False [pr (conn ''U2'' False [item 4])]))])
       ''query { a }'' (Some ''t'') [] 8 (Some nested_cursors) [] [] []
     = Some (Inr (prs_doc (JObj [(''nodes'',
                JArr [pr (conn ''T1'' True [item 1]), pr (conn ''U1'' True [item 3, item 4])])])),
             [sent [],
              sent [(''cursor2'', JStr ''P1'')],
              sent [(''cursor2'', JStr ''P1'')],
              sent [(''cursor2'', JStr ''P1''), (''cursor3'', JStr ''U1'')]])
   \<and> descend (prs_doc (JObj [(''nodes'',
                JArr [pr (conn ''T1'' True [item 1]), pr (conn ''U1'' True [item 3, item 4])])]))
        [Key ''repository'', Key ''pullRequests'', Key ''nodes'']
      = Inr (JArr ([pr (conn ''T1'' True [item 1])] @ [pr (conn ''U1'' True [item 3, item 4])]))
   \<and> list_all2 (welded [(''cursor3'', CNode [''timelineItems''] None)])
        [pr (conn ''U1'' True [item 3])] [pr (conn ''U1'' True [item 3, item 4])]"
proof -
  define D1 where "D1 = prs_doc (conn ''P1'' True [pr (conn ''T1'' True [item 1])])"
  define e where "e = env_of [ok D1,
                      ok (prs_doc (conn ''P2'' False [pr (conn ''U1'' True [item 3])])),
                      ok (prs_doc (conn ''P2'' False [pr (conn ''U1'' True [item 3])])),
                      ok (prs_doc (conn ''P2'' False [pr (conn ''U2'' False [item 4])]))]"
  define R where "R = prs_doc (JObj [(''nodes'',
                JArr [pr (conn ''T1'' True [item 1]), pr (conn ''U1'' True [item 3, item 4])])])"
  define W where "W = [sent [],
              sent [(''cursor2'', JStr ''P1'')],
              sent [(''cursor2'', JStr ''P1'')],
              sent [(''cursor2'', JStr ''P1''), (''cursor3'', JStr ''U1'')]]"
  define c where "c = CNode [''repository'', ''pullRequests'']
                        (Some [(''cursor3'', CNode [''timelineItems''] None)])"
  have h1: "transport e ''query { a }'' (Some ''t'') [] 8 [] [] = (Inr D1, [sent []])"
    unfolding e_def D1_def by code_simp
  have h2: "cursors_loop (graphql 3 e ''query { a }'' (Some ''t'') [] 8) [] [] [] D1 [sent []]
      = Some (Inr ([], D1), [sent []])"
    by simp
  have h3: "graphql (Suc 3) e ''query { a }'' (Some ''t'') [] 8
              (Some ([] @ (''cursor2'', c) # [])) [] [] [] = Some (Inr R, W)"
    unfolding e_def D1_def c_def R_def W_def by code_simp
  have h5: "outside ([] @ []) (map Key (path_of c) @ [Key ''pageInfo''])"
    and h6: "outside ([] @ []) (map Key (path_of c) @ [Key ''nodes''])"
    by (simp_all add: outside_def)
  have h7: "descend D1 (map Key (path_of c) @ [Key ''nodes''])
              = Inr (JArr [pr (conn ''T1'' True [item 1])])"
    and h8: "descend D1 (map Key (path_of c) @ [Key ''pageInfo''])
               = Inr (JObj [(''endCursor'', JStr ''P1''), (''hasNextPage'', JBool True)])"
    unfolding D1_def c_def by code_simp+
  have h9: "rest_pages 3 e ''query { a }'' (Some ''t'') [] 8 ''cursor2'' (map Key (path_of c))
              (JObj [(''endCursor'', JStr ''P1''), (''hasNextPage'', JBool True)])
              [] [sent []]
            = Some ([[pr (conn ''U1'' True [item 3])]],
                    [sent [], sent [(''cursor2'', JStr ''P1'')]])"
    unfolding e_def D1_def c_def by code_simp
  have r: "descend R (map Key (path_of c) @ [Key ''nodes''])
             = Inr (JArr [pr (conn ''T1'' True [item 1]), pr (conn ''U1'' True [item 3, item 4])])"
    by (simp add: R_def c_def prs_doc_def)
  from nodes_are_concatenated_pages [OF h1 h2 h3 h5 h6 h7 h8 h9] obtain zs where
    zs: "descend R (map Key (path_of c) @ [Key ''nodes''])
           = Inr (JArr (concat (butlast ([pr (conn ''T1'' True [item 1])]
                                          # [[pr (conn ''U1'' True [item 3])]])) @ zs))"
      "list_all2 (welded (nested_of c))
         (last ([pr (conn ''T1'' True [item 1])] # [[pr (conn ''U1'' True [item 3])]])) zs"
    by blast
  from zs(1) r have "zs = [pr (conn ''U1'' True [item 3, item 4])]"
    by simp
  with zs(2) have "list_all2 (welded [(''cursor3'', CNode [''timelineItems''] None)])
        [pr (conn ''U1'' True [item 3])] [pr (conn ''U1'' True [item 3, item 4])]"
    by (simp add: nested_of_def c_def)
  then show ?thesis
    using h3 r
    by (simp add: e_def D1_def R_def W_def c_def nested_cursors_def eval_nat_numeral)
qed

text \<open>
  C1 as stated fails for a cursor with nested cursors: the welding assigns the \<open>nodes\<close> of
  the nested connection inside an element, so the list is not a concatenation of lists
  the server sent. Here the connection has one page; its element in the result is in no
  reply, and differs from the one the server sent in the \<open>nodes\<close> of its timeline only.
\<close>

theorem nested_nodes_not_server_pages:
  "graphql 3 (env_of [ok (prs_doc (conn ''P'' False [pr (conn ''T1'' True [item 1])])),
                      ok (prs_doc (conn ''P'' False [pr (conn ''T1'' True [item 1])])),
                      ok (prs_doc (conn ''P'' False [pr (conn ''T2'' False [item 2])]))])
       ''query { a }'' (Some ''t'') [] 8 (Some nested_cursors) [] [] []
     = Some (Inr (prs_doc (JObj [(''nodes'', JArr [pr (conn ''T1'' True [item 1, item 2])])])),
             [sent [], sent [], sent [(''cursor3'', JStr ''T1'')]])
   \<and> descend (prs_doc (JObj [(''nodes'', JArr [pr (conn ''T1'' True [item 1, item 2])])]))
        [Key ''repository'', Key ''pullRequests'', Key ''nodes'']
      = Inr (JArr [pr (conn ''T1'' True [item 1, item 2])])
   \<and> descend (prs_doc (conn ''P'' False [pr (conn ''T1'' True [item 1])]))
        [Key ''repository'', Key ''pullRequests'', Key ''nodes'']
      = Inr (JArr [pr (conn ''T1'' True [item 1])])
   \<and> descend (prs_doc (conn ''P'' False [pr (conn ''T2'' False [item 2])]))
        [Key ''repository'', Key ''pullRequests'', Key ''nodes'']
      = Inr (JArr [pr (conn ''T2'' False [item 2])])
   \<and> pr (conn ''T1'' True [item 1, item 2]) \<noteq> pr (conn ''T1'' True [item 1])
   \<and> pr (conn ''T1'' True [item 1, item 2]) \<noteq> pr (conn ''T2'' False [item 2])"
  by code_simp

section \<open>The bound on the recursion\<close>

text \<open>
  The bound only ever cuts a run short: a call that returns under some bound returns the
  same under every larger one, so what a call returns does not depend on the bound.
\<close>

lemma recurse_mono:
  assumes "\<And>cs pp kw w y. rc cs pp kw w = Some y \<Longrightarrow> rc' cs pp kw w = Some y"
  shows "recurse rc cs pp kw w = Some y \<Longrightarrow> recurse rc' cs pp kw w = Some y"
  using assms by (auto simp: recurse_def split: if_splits)

lemma nodes_loop_mono:
  assumes "\<And>cs pp kw w y. rc cs pp kw w = Some y \<Longrightarrow> rc' cs pp kw w = Some y"
  shows "nodes_loop rc nxt prev_path cp kwargs is data w = Some y \<Longrightarrow>
         nodes_loop rc' nxt prev_path cp kwargs is data w = Some y"
proof (induction "is" arbitrary: data w)
  case Nil
  then show ?case by simp
next
  case (Cons i "is")
  define cpn where "cpn = (if prev_path = [] then cp else prev_path) @ [Key ''nodes'', Idx i]"
  show ?case
  proof (cases "descend data cpn")
    case (Inl x)
    then show ?thesis using Cons.prems by (simp add: cpn_def)
  next
    case (Inr node_data)
    show ?thesis
    proof (cases "call_required node_data nxt False")
      case (Inl x)
      then show ?thesis using Cons.prems Inr by (simp add: cpn_def)
    next
      case b: (Inr b)
      show ?thesis
      proof (cases b)
        case False
        then show ?thesis
          using Cons.prems Inr b Cons.IH by (simp add: cpn_def)
      next
        case True
        define call where "call = (\<lambda>r. recurse r (Some (map (\<lambda>kc. (fst kc, normalise (snd kc))) nxt))
                                     cpn kwargs w)"
        from Cons.prems Inr b True obtain z where z: "call rc = Some z"
          by (cases "call rc") (auto simp: cpn_def call_def)
        then have z': "call rc' = Some z"
          unfolding call_def using recurse_mono [of rc rc', OF assms] by blast
        show ?thesis
        proof (cases z)
          case (Pair res w1)
          show ?thesis
          proof (cases res)
            case (Inl x)
            then show ?thesis
              using Cons.prems Inr b True z z' Pair by (auto simp: cpn_def call_def)
          next
            case nx: (Inr nx)
            show ?thesis
            proof (cases "weld data nx cpn nxt")
              case (Inl x)
              then show ?thesis
                using Cons.prems Inr b True z z' Pair nx by (auto simp: cpn_def call_def)
            next
              case d': (Inr data')
              then have "nodes_loop rc nxt prev_path cp kwargs is data' w1 = Some y"
                using Cons.prems Inr b True z Pair nx by (auto simp: cpn_def call_def)
              then have "nodes_loop rc' nxt prev_path cp kwargs is data' w1 = Some y"
                by (rule Cons.IH)
              then show ?thesis
                using Inr b True z' Pair nx d' by (auto simp: cpn_def call_def)
            qed
          qed
        qed
      qed
    qed
  qed
qed

lemma visit_mono:
  assumes "\<And>cs pp kw w y. rc cs pp kw w = Some y \<Longrightarrow> rc' cs pp kw w = Some y"
  shows "visit rc prev_path cursor c kwargs data w = Some y \<Longrightarrow>
         visit rc' prev_path cursor c kwargs data w = Some y"
proof -
  assume run: "visit rc prev_path cursor c kwargs data w = Some y"
  define P where "P = prev_path @ map Key (path_of c)"
  show ?thesis
  proof (cases "descend data P")
    case (Inl x)
    then show ?thesis using run by (simp add: visit_def P_def)
  next
    case (Inr obj)
    show ?thesis
    proof (cases "pop obj ''pageInfo''")
      case (Inl x)
      then show ?thesis using run Inr by (simp add: visit_def P_def)
    next
      case popped: (Inr po)
      obtain pinfo obj' where po: "po = (pinfo, obj')" by (cases po)
      show ?thesis
      proof (cases "getitem pinfo (Key ''hasNextPage'')")
        case (Inl x)
        then show ?thesis using run Inr popped po by (simp add: visit_def P_def)
      next
        case h: (Inr h)
        show ?thesis
        proof (cases "truthy h")
          case True
          show ?thesis
          proof (cases "getitem pinfo (Key ''endCursor'')")
            case (Inl x)
            then show ?thesis using run Inr popped po h True by (simp add: visit_def P_def)
          next
            case ec: (Inr ec)
            define call where "call = (\<lambda>r. recurse r (Some [(cursor, normalise c)]) prev_path
                                         (AList.update cursor ec kwargs) w)"
            from run Inr popped po h True ec obtain z where z: "call rc = Some z"
              by (cases "call rc") (auto simp: visit_def P_def call_def)
            then have "call rc' = Some z"
              unfolding call_def using recurse_mono [of rc rc', OF assms] by blast
            then show ?thesis
              using run Inr popped po h True ec z by (auto simp: visit_def P_def call_def)
          qed
        next
          case False
          show ?thesis
          proof (cases "next_of c")
            case None
            then show ?thesis using run Inr popped po h False by (simp add: visit_def P_def)
          next
            case (Some nxt)
            show ?thesis
            proof (cases "getitem obj' (Key ''nodes'')")
              case (Inl x)
              then show ?thesis
                using run Inr popped po h False Some by (simp add: visit_def P_def)
            next
              case ns: (Inr ns)
              show ?thesis
              proof (cases "len ns")
                case (Inl x)
                then show ?thesis
                  using run Inr popped po h False Some ns by (simp add: visit_def P_def)
              next
                case k: (Inr k)
                define loop where "loop = (\<lambda>r. nodes_loop r nxt prev_path P kwargs [0..<k]
                                             (put P obj' data) w)"
                from run Inr popped po h False Some ns k obtain z where z: "loop rc = Some z"
                  by (cases "loop rc") (auto simp: visit_def P_def loop_def)
                then have "loop rc' = Some z"
                  unfolding loop_def using nodes_loop_mono [of rc rc', OF assms] by blast
                then show ?thesis
                  using run Inr popped po h False Some ns k z
                  by (auto simp: visit_def P_def loop_def)
              qed
            qed
          qed
        qed
      qed
    qed
  qed
qed

lemma cursors_loop_mono:
  assumes "\<And>cs pp kw w y. rc cs pp kw w = Some y \<Longrightarrow> rc' cs pp kw w = Some y"
  shows "cursors_loop rc prev_path cs kwargs data w = Some y \<Longrightarrow>
         cursors_loop rc' prev_path cs kwargs data w = Some y"
proof (induction cs arbitrary: kwargs data w)
  case Nil
  then show ?case by simp
next
  case (Cons kc cs)
  obtain cursor c where kc: "kc = (cursor, c)" by (cases kc)
  from Cons.prems obtain z where z: "visit rc prev_path cursor c kwargs data w = Some z"
    by (cases "visit rc prev_path cursor c kwargs data w") (auto simp: kc)
  then have z': "visit rc' prev_path cursor c kwargs data w = Some z"
    using visit_mono [of rc rc', OF assms] by blast
  show ?case
    using Cons.prems z z' Cons.IH
    by (auto simp: kc split: sum.splits prod.splits)
qed

lemma graphql_more_fuel:
  "graphql n e query token accept max_retries cs prev_path kwargs w = Some y \<Longrightarrow>
   graphql (Suc n) e query token accept max_retries cs prev_path kwargs w = Some y"
proof (induction n arbitrary: cs prev_path kwargs w y)
  case 0
  then show ?case by simp
next
  case (Suc n)
  have mono: "\<And>cs pp kw w y. graphql n e query token accept max_retries cs pp kw w = Some y \<Longrightarrow>
                 graphql (Suc n) e query token accept max_retries cs pp kw w = Some y"
    by (rule Suc.IH)
  obtain res w0 where tr: "transport e query token accept max_retries kwargs w = (res, w0)"
    by (cases "transport e query token accept max_retries kwargs w")
  have unfold: "graphql (Suc k) e query token accept max_retries cs prev_path kwargs w =
      (case res of
         Inl x \<Rightarrow> Some (Inl x, w0)
       | Inr data \<Rightarrow>
           (case cs of
              None \<Rightarrow> Some (Inr data, w0)
            | Some c \<Rightarrow>
                (case cursors_loop (graphql k e query token accept max_retries) prev_path c
                        kwargs data w0 of
                   None \<Rightarrow> None
                 | Some (Inl x, w'') \<Rightarrow> Some (Inl x, w'')
                 | Some (Inr (kwargs', data'), w'') \<Rightarrow> Some (Inr data', w''))))" for k
    using tr by (simp split: sum.splits)
  show ?case
  proof (cases res)
    case (Inl x)
    then show ?thesis using Suc.prems unfolding unfold by simp
  next
    case (Inr data)
    show ?thesis
    proof (cases cs)
      case None
      then show ?thesis using Suc.prems Inr unfolding unfold by simp
    next
      case (Some c)
      from Suc.prems Inr Some obtain z where
        z: "cursors_loop (graphql n e query token accept max_retries) prev_path c kwargs data w0 = Some z"
        unfolding unfold
        by (cases "cursors_loop (graphql n e query token accept max_retries) prev_path c kwargs data w0")
           auto
      then have "cursors_loop (graphql (Suc n) e query token accept max_retries) prev_path c kwargs
                   data w0 = Some z"
        using cursors_loop_mono [of "graphql n e query token accept max_retries"
            "graphql (Suc n) e query token accept max_retries", OF mono]
        by blast
      then show ?thesis
        using Suc.prems Inr Some z unfolding unfold by simp
    qed
  qed
qed

lemma graphql_enough_fuel:
  "graphql n e query token accept max_retries cs prev_path kwargs w = Some y \<Longrightarrow> n \<le> m \<Longrightarrow>
   graphql m e query token accept max_retries cs prev_path kwargs w = Some y"
proof (induction m)
  case 0
  then show ?case by simp
next
  case (Suc m)
  show ?case
  proof (cases "n = Suc m")
    case True
    then show ?thesis using Suc.prems(1) by simp
  next
    case False
    then have "graphql m e query token accept max_retries cs prev_path kwargs w = Some y"
      using Suc by simp
    then show ?thesis by (rule graphql_more_fuel)
  qed
qed

lemma graphql_fuel_irrelevant:
  "graphql n e query token accept max_retries cs prev_path kwargs w = Some y \<Longrightarrow>
   graphql m e query token accept max_retries cs prev_path kwargs w = Some z \<Longrightarrow> y = z"
  using graphql_enough_fuel [of n e query token accept max_retries cs prev_path kwargs w y "max n m"]
    graphql_enough_fuel [of m e query token accept max_retries cs prev_path kwargs w z "max n m"]
  by simp

end
